theory Spec2Isabelle
  imports Complex_Main "HOL-Library.AList" "HOL-Library.Multiset"
begin

section \<open>Runtime values and the flat value map\<close>

text \<open>
  A JavaScript value, as far as the store and the engine look at it: the primitives,
  and an object known only by its identity. \<open>VNaN\<close> is kept apart from the other
  numbers because \<open>===\<close> treats it differently.
\<close>

datatype val = VUndefined | VNull | VBool bool | VNum real | VNaN | VStr string | VObj nat

text \<open>The operator \<open>===\<close>: identity on objects, equality on primitives, never true on NaN.\<close>

definition strict_eq :: "val \<Rightarrow> val \<Rightarrow> bool" where
  "strict_eq a b = (a \<noteq> VNaN \<and> a = b)"

text \<open>
  \<open>FieldValueMap = Record<string, unknown>\<close>: a flat object. It is kept as an association
  list so that \<open>Object.keys\<close> (the keys in insertion order) can be read off it; a property
  that is absent reads as \<open>undefined\<close>. (JavaScript lists keys that are array indices
  first; field paths are taken not to be such keys.)
\<close>

type_synonym FieldValueMap = "(string \<times> val) list"

definition get_prop :: "FieldValueMap \<Rightarrow> string \<Rightarrow> val" where
  "get_prop vs k = (case map_of vs k of None \<Rightarrow> VUndefined | Some v \<Rightarrow> v)"

section \<open>Condition rules (condition-types.ts, condition-dsl)\<close>

text \<open>
  The value of a \<open>set\<close> effect is either a plain value or a function of the value map
  (\<open>typeof effect.value === "function"\<close>).
\<close>

datatype setval = Literal val | Compute "FieldValueMap \<Rightarrow> val"

datatype ConditionEffect =
    Show string
  | Hide string
  | Enable string
  | Disable string
  | SetEff string setval
  | Clear string

fun effect_field :: "ConditionEffect \<Rightarrow> string" where
  "effect_field (Show f) = f"
| "effect_field (Hide f) = f"
| "effect_field (Enable f) = f"
| "effect_field (Disable f) = f"
| "effect_field (SetEff f v) = f"
| "effect_field (Clear f) = f"

record ConditionRule =
  rule_when :: "FieldValueMap \<Rightarrow> bool"
  rule_effects :: "ConditionEffect list"
  rule_priority :: "real option"

section \<open>The condition engine (condition-engine.ts)\<close>

text \<open>The engine's meta patch per field: \<open>{ visible?: boolean; enabled?: boolean }\<close>.\<close>

record EngineMeta =
  em_visible :: "bool option"
  em_enabled :: "bool option"

definition em_empty :: EngineMeta where
  "em_empty = \<lparr>em_visible = None, em_enabled = None\<rparr>"

text \<open>\<open>meta[field]\<close> spread into a fresh object: an absent entry spreads to nothing.\<close>

definition em_get :: "(string \<times> EngineMeta) list \<Rightarrow> string \<Rightarrow> EngineMeta" where
  "em_get meta field = (case map_of meta field of None \<Rightarrow> em_empty | Some m \<Rightarrow> m)"

record EvalResult =
  desiredValues :: "(string \<times> val) list"
  meta :: "(string \<times> EngineMeta) list"

text \<open>
  \<open>applyEffect(effect, values, nextValues, meta)\<close>. The two objects it mutates are the two
  fields of the accumulator. Assigning to a property keeps the key's place when it is
  already there and appends it otherwise, which is \<open>AList.update\<close>.
\<close>

fun applyEffect :: "ConditionEffect \<Rightarrow> FieldValueMap \<Rightarrow> EvalResult \<Rightarrow> EvalResult" where
  "applyEffect (Show field) values0 acc =
     acc\<lparr>meta := AList.update field ((em_get (meta acc) field)\<lparr>em_visible := Some True\<rparr>) (meta acc)\<rparr>"
| "applyEffect (Hide field) values0 acc =
     acc\<lparr>meta := AList.update field ((em_get (meta acc) field)\<lparr>em_visible := Some False\<rparr>) (meta acc)\<rparr>"
| "applyEffect (Enable field) values0 acc =
     acc\<lparr>meta := AList.update field ((em_get (meta acc) field)\<lparr>em_enabled := Some True\<rparr>) (meta acc)\<rparr>"
| "applyEffect (Disable field) values0 acc =
     acc\<lparr>meta := AList.update field ((em_get (meta acc) field)\<lparr>em_enabled := Some False\<rparr>) (meta acc)\<rparr>"
| "applyEffect (SetEff field v) values0 acc =
     acc\<lparr>desiredValues :=
       AList.update field (case v of Compute g \<Rightarrow> g values0 | Literal x \<Rightarrow> x) (desiredValues acc)\<rparr>"
| "applyEffect (Clear field) values0 acc =
     acc\<lparr>desiredValues := AList.update field VUndefined (desiredValues acc)\<rparr>"

text \<open>\<open>rule.priority ?? 0\<close>.\<close>

definition priority_or_0 :: "ConditionRule \<Rightarrow> real" where
  "priority_or_0 r = (case rule_priority r of None \<Rightarrow> 0 | Some p \<Rightarrow> p)"

text \<open>
  \<open>[...rules].sort((a, b) => (b.priority ?? 0) - (a.priority ?? 0))\<close>: JavaScript's sort is
  stable, so the result is the stable sort by descending priority, which is the
  insertion sort \<open>sort_key\<close> on the negated priority.
\<close>

definition sort_rules :: "ConditionRule list \<Rightarrow> ConditionRule list" where
  "sort_rules rules = sort_key (\<lambda>r. - priority_or_0 r) rules"

definition apply_rule :: "FieldValueMap \<Rightarrow> ConditionRule \<Rightarrow> EvalResult \<Rightarrow> EvalResult" where
  "apply_rule values0 rule acc =
     (if \<not> rule_when rule values0 then acc
      else fold (\<lambda>effect. applyEffect effect values0) (rule_effects rule) acc)"

definition evaluateConditions :: "FieldValueMap \<Rightarrow> ConditionRule list \<Rightarrow> EvalResult" where
  "evaluateConditions values0 rules =
     fold (apply_rule values0) (sort_rules rules) \<lparr>desiredValues = [], meta = []\<rparr>"

section \<open>Field meta and the form store (meta-types.ts, ndc-form)\<close>

text \<open>
  \<open>FieldMeta = { visible?: boolean; validate?: boolean; enabled?: boolean }\<close>: a property
  that is absent, or present and undefined, is \<open>None\<close>.
\<close>

record FieldMeta =
  visible :: "bool option"
  validate :: "bool option"
  enabled :: "bool option"

definition defaultMeta :: FieldMeta where
  "defaultMeta = \<lparr>visible = Some True, validate = Some True, enabled = Some True\<rparr>"

text \<open>The object spread \<open>{ ...a, ...b }\<close> on meta objects: the properties of \<open>b\<close> win.\<close>

definition spread_meta :: "FieldMeta \<Rightarrow> FieldMeta \<Rightarrow> FieldMeta" where
  "spread_meta a b =
     \<lparr>visible = (case visible b of None \<Rightarrow> visible a | Some x \<Rightarrow> Some x),
      validate = (case validate b of None \<Rightarrow> validate a | Some x \<Rightarrow> Some x),
      enabled = (case enabled b of None \<Rightarrow> enabled a | Some x \<Rightarrow> Some x)\<rparr>"

text \<open>\<open>m?.visible\<close>, \<open>m?.validate\<close>, \<open>m?.enabled\<close> on a meta object that may be undefined.\<close>

definition opt_visible :: "FieldMeta option \<Rightarrow> bool option" where
  "opt_visible m = (case m of None \<Rightarrow> None | Some x \<Rightarrow> visible x)"

definition opt_validate :: "FieldMeta option \<Rightarrow> bool option" where
  "opt_validate m = (case m of None \<Rightarrow> None | Some x \<Rightarrow> validate x)"

definition opt_enabled :: "FieldMeta option \<Rightarrow> bool option" where
  "opt_enabled m = (case m of None \<Rightarrow> None | Some x \<Rightarrow> enabled x)"

text \<open>
  The notifier calls the listeners of one field and the global listeners. The listeners
  are the UI's; the model records each call of \<open>notifyValue\<close>, \<open>notifyError\<close> and
  \<open>notifyMeta\<close> in a log, in order, and runs no listener.
\<close>

datatype event = NotifyValue string | NotifyError string | NotifyMeta string

text \<open>
  A validator returns a message, null, or a promise. \<open>Sync None\<close> is null; the promise
  is known by a number only, its result arrives later.
\<close>

datatype vresult = Sync "string option" | Async nat

type_synonym validator = "val \<Rightarrow> FieldValueMap \<Rightarrow> vresult"

text \<open>
  \<open>createFormStore()\<close>. In \<open>st_errors\<close>, \<open>None\<close> is an absent entry, \<open>Some None\<close> is null.
  \<open>st_pending\<close> and \<open>st_lastValidated\<close> are the two parts of \<open>store.validation\<close>.
\<close>

record store =
  st_values :: FieldValueMap
  st_errors :: "string \<rightharpoonup> string option"
  st_meta :: "string \<rightharpoonup> FieldMeta"
  st_validators :: "string \<rightharpoonup> validator list"
  st_pending :: "string set"
  st_lastValidated :: "string \<rightharpoonup> val"
  st_log :: "event list"

definition createFormStore :: store where
  "createFormStore =
     \<lparr>st_values = [], st_errors = Map.empty, st_meta = Map.empty, st_validators = Map.empty,
      st_pending = {}, st_lastValidated = Map.empty, st_log = []\<rparr>"

definition notify :: "event \<Rightarrow> store \<Rightarrow> store" where
  "notify e s = s\<lparr>st_log := st_log s @ [e]\<rparr>"

text \<open>\<open>if (store.errors[key])\<close>: a non-empty string.\<close>

definition error_truthy :: "string option option \<Rightarrow> bool" where
  "error_truthy e = (case e of Some (Some msg) \<Rightarrow> msg \<noteq> [] | _ \<Rightarrow> False)"

text \<open>\<open>if (store.errors[key] !== null) { store.errors[key] = null; notifyError(key) }\<close>.\<close>

definition clear_error_if_set :: "string \<Rightarrow> store \<Rightarrow> store" where
  "clear_error_if_set key s =
     (if st_errors s key \<noteq> Some None
      then notify (NotifyError key) (s\<lparr>st_errors := (st_errors s)(key \<mapsto> None)\<rparr>)
      else s)"

definition register :: "string \<Rightarrow> val \<Rightarrow> store \<Rightarrow> store" where
  "register key initialValue s =
     (if key \<in> fst ` set (st_values s) then s
      else
        notify (NotifyMeta key) (notify (NotifyError key) (notify (NotifyValue key)
          (s\<lparr>st_values := st_values s @ [(key, initialValue)],
             st_errors := (case st_errors s key of None \<Rightarrow> (st_errors s)(key \<mapsto> None)
                           | Some e \<Rightarrow> st_errors s),
             st_meta := (case st_meta s key of None \<Rightarrow> (st_meta s)(key \<mapsto> defaultMeta)
                           | Some m \<Rightarrow> st_meta s)\<rparr>))))"

definition setValue :: "string \<Rightarrow> val \<Rightarrow> store \<Rightarrow> store" where
  "setValue key v s =
     (let s1 = s\<lparr>st_values := AList.update key v (st_values s),
                  st_lastValidated := (st_lastValidated s)(key := None)\<rparr>;
          s2 = (if error_truthy (st_errors s1 key)
                then notify (NotifyError key) (s1\<lparr>st_errors := (st_errors s1)(key \<mapsto> None)\<rparr>)
                else s1)
      in notify (NotifyValue key) s2)"

definition getValue :: "store \<Rightarrow> string \<Rightarrow> val" where
  "getValue s name = get_prop (st_values s) name"

definition clearError :: "string \<Rightarrow> store \<Rightarrow> store" where
  "clearError key s = clear_error_if_set key s"

definition getMeta :: "store \<Rightarrow> string \<Rightarrow> FieldMeta option" where
  "getMeta s name = st_meta s name"

text \<open>\<open>metaApi.setMeta(name, next)\<close>.\<close>

definition setMeta :: "string \<Rightarrow> FieldMeta \<Rightarrow> store \<Rightarrow> store" where
  "setMeta name next s =
     (let prev = (case st_meta s name of None \<Rightarrow> defaultMeta | Some m \<Rightarrow> m);
          merged = spread_meta prev next;
          s1 = s\<lparr>st_meta := (st_meta s)(name \<mapsto> merged)\<rparr>;
          becameValidatable =
            ((visible prev = Some False \<or> validate prev = Some False)
             \<and> visible merged = Some True \<and> validate merged = Some True);
          s2 = (if becameValidatable
                then s1\<lparr>st_lastValidated := (st_lastValidated s1)(name := None)\<rparr>
                else s1);
          s3 = (if visible merged = Some False \<or> validate merged = Some False
                then clear_error_if_set name
                       (s2\<lparr>st_pending := st_pending s2 - {name},
                           st_lastValidated := (st_lastValidated s2)(name := None)\<rparr>)
                else s2)
      in if visible prev \<noteq> visible merged \<or> enabled prev \<noteq> enabled merged
            \<or> validate prev \<noteq> validate merged
         then notify (NotifyMeta name) s3
         else s3)"

section \<open>The condition bridge (condition-bridge): paths and the subtree walk\<close>

text \<open>\<open>path.split(".")\<close> and \<open>parts.join(".")\<close>.\<close>

fun split_dot :: "string \<Rightarrow> string list" where
  "split_dot [] = [[]]"
| "split_dot (c # cs) =
     (if c = CHR ''.'' then [] # split_dot cs
      else (case split_dot cs of [] \<Rightarrow> [[c]] | p # ps \<Rightarrow> (c # p) # ps))"

fun join_dot :: "string list \<Rightarrow> string" where
  "join_dot [] = []"
| "join_dot [p] = p"
| "join_dot (p # q # ps) = p @ ''.'' @ join_dot (q # ps)"

text \<open>
  \<open>parentPath(path)\<close>: the path without its last dot segment, the empty string when it
  has one segment only.
\<close>

definition parentPath :: "string \<Rightarrow> string" where
  "parentPath path =
     (let parts = split_dot path
      in if length parts \<le> 1 then [] else join_dot (butlast parts))"

text \<open>\<open>isChildOf(parent, child)\<close>: \<open>child === parent || child.startsWith(parent + ".")\<close>.\<close>

definition isChildOf :: "string \<Rightarrow> string \<Rightarrow> bool" where
  "isChildOf parent child =
     (child = parent \<or> take (length (parent @ ''.'')) child = parent @ ''.'')"


lemma split_dot_ne: "split_dot s \<noteq> []"
  by (induction s) (auto split: list.splits)

lemma join_split_dot: "join_dot (split_dot s) = s"
proof (induction s)
  case Nil then show ?case by simp
next
  case (Cons c cs)
  then show ?case
    by (cases "split_dot cs"; cases "tl (split_dot cs)") (auto simp: split_dot_ne)
qed

lemma length_join_butlast:
  "2 \<le> length ps \<Longrightarrow> length (join_dot (butlast ps)) < length (join_dot ps)"
  by (induction ps rule: join_dot.induct) (auto simp: Suc_le_eq)

lemma parentPath_shorter: "parentPath f \<noteq> [] \<Longrightarrow> length (parentPath f) < length f"
proof -
  assume a: "parentPath f \<noteq> []"
  then have "2 \<le> length (split_dot f)"
    by (auto simp: parentPath_def Let_def split: if_splits)
  then have "length (join_dot (butlast (split_dot f))) < length (join_dot (split_dot f))"
    by (rule length_join_butlast)
  then show ?thesis using a
    by (auto simp: parentPath_def Let_def join_split_dot split: if_splits)
qed


text \<open>
  The children index of \<open>rebuildChildrenMapIfNeeded\<close>: one step of its loop over the keys,
  and the map built from no entries. A key whose parent path is empty is skipped.
\<close>

definition childrenMap_step :: "string \<Rightarrow> (string \<rightharpoonup> string list) \<Rightarrow> (string \<rightharpoonup> string list)" where
  "childrenMap_step field next =
     (let p = parentPath field
      in if p = [] then next
         else (case next p of Some arr \<Rightarrow> next(p \<mapsto> arr @ [field])
               | None \<Rightarrow> next(p \<mapsto> [field])))"

definition build_childrenMap :: "string list \<Rightarrow> (string \<rightharpoonup> string list)" where
  "build_childrenMap keys = fold childrenMap_step keys Map.empty"

text \<open>
  The bridge keeps the index and the keys it was built from, and rebuilds it only when
  the keys of the value map are no longer those. The test compares the two key arrays
  by length and element by element, which is equality of the lists.
\<close>

record children_cache =
  cachedFieldKeys :: "string list"
  childrenMap :: "string \<rightharpoonup> string list"

definition initial_cache :: children_cache where
  "initial_cache = \<lparr>cachedFieldKeys = [], childrenMap = Map.empty\<rparr>"

definition rebuildChildrenMapIfNeeded :: "string list \<Rightarrow> children_cache \<Rightarrow> children_cache" where
  "rebuildChildrenMapIfNeeded keys c =
     (if keys = cachedFieldKeys c then c
      else \<lparr>cachedFieldKeys = keys, childrenMap = build_childrenMap keys\<rparr>)"

definition cache_current :: "children_cache \<Rightarrow> bool" where
  "cache_current c = (childrenMap c = build_childrenMap (cachedFieldKeys c))"

text \<open>
  \<open>childrenMap.get(cur)\<close>, read as no children when there is no entry. The map is the one
  built from the current keys: that is what the cache holds after
  \<open>rebuildChildrenMapIfNeeded\<close> (lemma \<open>rebuild_gives_index\<close> below).
\<close>

definition kids_of :: "string list \<Rightarrow> string \<Rightarrow> string list" where
  "kids_of keys cur = (case build_childrenMap keys cur of None \<Rightarrow> [] | Some ks \<Rightarrow> ks)"

lemma fold_childrenMap_step:
  "(case fold childrenMap_step keys m p of None \<Rightarrow> [] | Some ks \<Rightarrow> ks) =
   (case m p of None \<Rightarrow> [] | Some ks \<Rightarrow> ks) @ (if p = [] then [] else filter (\<lambda>k. parentPath k = p) keys)"
proof (induction keys arbitrary: m)
  case Nil then show ?case by simp
next
  case (Cons k keys)
  show ?case
    unfolding fold_simps Cons.IH
    by (auto simp: childrenMap_step_def Let_def split: option.splits)
qed

lemma kids_of_filter:
  "kids_of keys cur = (if cur = [] then [] else filter (\<lambda>k. parentPath k = cur) keys)"
  unfolding kids_of_def build_childrenMap_def
  using fold_childrenMap_step [of keys Map.empty cur] by simp

definition depth_bound :: "string list \<Rightarrow> nat" where
  "depth_bound keys = Suc (sum_list (map length keys))"

lemma kid_longer: "k \<in> set (kids_of keys cur) \<Longrightarrow> length cur < length k"
  using parentPath_shorter [of k] by (auto simp: kids_of_filter split: if_splits)

lemma kid_bounded: "k \<in> set (kids_of keys cur) \<Longrightarrow> length k < depth_bound keys"
  by (auto simp: kids_of_filter depth_bound_def less_Suc_eq_le member_le_sum_list split: if_splits)

text \<open>
  The loop of \<open>walkSubtree\<close>: an iterative depth-first walk over a stack (a JavaScript
  array: \<open>pop\<close> takes the last element, \<open>push\<close> appends). The index is the one built
  from \<open>keys\<close>, the keys of the value map when the walk starts. A child's path is
  longer than its parent's and is one of the keys, which is why the loop ends.
\<close>

function walk_stack :: "string list \<Rightarrow> (string \<Rightarrow> 's \<Rightarrow> 's) \<Rightarrow> string list \<Rightarrow> 's \<Rightarrow> 's" where
  "walk_stack keys visit stack s =
     (if stack = [] then s
      else (let cur = last stack
            in walk_stack keys visit (butlast stack @ kids_of keys cur) (visit cur s)))"
  by pat_completeness auto
termination
proof (relation "inv_image (mult less_than)
    (\<lambda>(keys, visit, stack, s). mset (map (\<lambda>x. depth_bound keys - length x) stack))")
  show "wf (inv_image (mult less_than)
    (\<lambda>(keys :: string list, visit :: string \<Rightarrow> 's \<Rightarrow> 's, stack :: string list, s :: 's).
       mset (map (\<lambda>x. depth_bound keys - length x) stack)))"
    by (simp add: wf_mult)
next
  fix keys :: "string list" and visit :: "string \<Rightarrow> 's \<Rightarrow> 's" and stack :: "string list"
    and s :: 's and cur
  assume ne: "stack \<noteq> []" and cur: "cur = last stack"
  let ?d = "\<lambda>x. depth_bound keys - length x"
  from ne cur obtain rest where st: "stack = rest @ [cur]"
    by (metis append_butlast_last_id)
  have less: "\<forall>k \<in># mset (map ?d (kids_of keys cur)). \<exists>j \<in># {#?d cur#}. (k, j) \<in> less_than"
    using kid_longer kid_bounded by fastforce
  have "(mset (map ?d rest) + mset (map ?d (kids_of keys cur)),
         mset (map ?d rest) + {#?d cur#}) \<in> mult less_than"
    by (rule one_step_implies_mult) (use less in auto)
  then show "((keys, visit, butlast stack @ kids_of keys cur, visit cur s), (keys, visit, stack, s))
    \<in> inv_image (mult less_than)
        (\<lambda>(keys, visit, stack, s). mset (map (\<lambda>x. depth_bound keys - length x) stack))"
    by (simp add: st)
qed

declare walk_stack.simps [simp del]

text \<open>The fields a walk visits, in the order of the visits.\<close>

definition walk_order :: "string list \<Rightarrow> string list \<Rightarrow> string list" where
  "walk_order keys stack = walk_stack keys (\<lambda>cur acc. acc @ [cur]) stack []"

section \<open>The condition bridge: one evaluation pass\<close>

text \<open>\<open>metaShallowEqual(a, b)\<close>: the three keys, each read through \<open>?.\<close>.\<close>

definition metaShallowEqual :: "FieldMeta option \<Rightarrow> FieldMeta option \<Rightarrow> bool" where
  "metaShallowEqual a b =
     (opt_visible a = opt_visible b \<and> opt_enabled a = opt_enabled b
      \<and> opt_validate a = opt_validate b)"

text \<open>
  The object \<open>{ ...(prev ?? { visible: true, enabled: true }), ...patch }\<close> that
  \<open>setMetaIfChanged\<close> compares with the current meta.
\<close>

definition merged_meta :: "FieldMeta option \<Rightarrow> FieldMeta \<Rightarrow> FieldMeta" where
  "merged_meta prev patch =
     spread_meta
       (case prev of None \<Rightarrow> \<lparr>visible = Some True, validate = None, enabled = Some True\<rparr>
        | Some m \<Rightarrow> m)
       patch"

definition setMetaIfChanged :: "string \<Rightarrow> FieldMeta \<Rightarrow> store \<Rightarrow> store" where
  "setMetaIfChanged name patch s =
     (let prev = getMeta s name;
          merged = merged_meta prev patch
      in if metaShallowEqual prev (Some merged) then s else setMeta name patch s)"

text \<open>\<open>Set.add\<close> on a set kept in insertion order.\<close>

definition set_add :: "'a list \<Rightarrow> 'a \<Rightarrow> 'a list" where
  "set_add xs x = (if x \<in> set xs then xs else xs @ [x])"

text \<open>Step 0 of the bridge: the targets of the \<open>show\<close> effects of all rules.\<close>

definition showControlledFields :: "ConditionRule list \<Rightarrow> string list" where
  "showControlledFields conditions =
     fold (\<lambda>rule acc.
        fold (\<lambda>effect acc'. case effect of Show field \<Rightarrow> set_add acc' field | _ \<Rightarrow> acc')
          (rule_effects rule) acc)
       conditions []"

text \<open>The two patches the bridge writes itself, and the engine's patch as a meta patch.\<close>

definition hidden_patch :: FieldMeta where
  "hidden_patch = \<lparr>visible = Some False, validate = Some False, enabled = None\<rparr>"

definition shown_patch :: FieldMeta where
  "shown_patch = \<lparr>visible = Some True, validate = Some True, enabled = None\<rparr>"

definition engine_patch :: "EngineMeta \<Rightarrow> FieldMeta" where
  "engine_patch m = \<lparr>visible = em_visible m, validate = None, enabled = em_enabled m\<rparr>"

text \<open>
  \<open>walkSubtree(root, visit)\<close> with \<open>visit = field => setMetaIfChanged(field, patch)\<close>. The
  index is current when the walk starts (\<open>rebuildChildrenMapIfNeeded\<close>), and writing meta
  does not change the keys of the value map.
\<close>

definition walkSubtree :: "string \<Rightarrow> FieldMeta \<Rightarrow> store \<Rightarrow> store" where
  "walkSubtree rt patch s =
     walk_stack (map fst (st_values s)) (\<lambda>field. setMetaIfChanged field patch) [rt] s"

text \<open>Step 1 of \<open>run\<close>: the baseline.\<close>

definition baseline :: "string list \<Rightarrow> store \<Rightarrow> store" where
  "baseline flds s = fold (\<lambda>field. setMetaIfChanged field hidden_patch) flds s"

text \<open>Step 2 of \<open>run\<close>: \<open>for (const key of Object.keys(meta)) setMetaIfChanged(key, meta[key])\<close>.\<close>

definition apply_meta :: "(string \<times> EngineMeta) list \<Rightarrow> store \<Rightarrow> store" where
  "apply_meta m s =
     fold (\<lambda>key. setMetaIfChanged key (engine_patch (em_get m key))) (map fst m) s"

text \<open>Step 3 of \<open>run\<close>: the cascade roots, and the body of the loop over them.\<close>

definition cascadeRoots :: "string list \<Rightarrow> (string \<times> EngineMeta) list \<Rightarrow> string list" where
  "cascadeRoots flds m = fold (\<lambda>x acc. set_add acc x) (flds @ map fst m) []"

definition cascade_root :: "string \<Rightarrow> store \<Rightarrow> store" where
  "cascade_root rt s =
     (let m = getMeta s rt
      in if opt_visible m = Some False then walkSubtree rt hidden_patch s
         else if opt_visible m = Some True then walkSubtree rt shown_patch s
         else s)"

definition cascade :: "string list \<Rightarrow> store \<Rightarrow> store" where
  "cascade roots s = fold cascade_root roots s"

text \<open>Step 4 of \<open>run\<close>: the value effects.\<close>

definition apply_values :: "(string \<times> val) list \<Rightarrow> store \<Rightarrow> store" where
  "apply_values dv s =
     fold (\<lambda>key s'.
        let prev = getValue s' key; next = get_prop dv key
        in if \<not> strict_eq prev next then setValue key next s' else s')
       (map fst dv) s"

text \<open>The state of a pass after its steps 1 and 2, after step 3, and after all four.\<close>

definition after_meta :: "ConditionRule list \<Rightarrow> store \<Rightarrow> store" where
  "after_meta conditions s =
     apply_meta (meta (evaluateConditions (st_values s) conditions))
       (baseline (showControlledFields conditions) s)"

definition after_cascade :: "ConditionRule list \<Rightarrow> store \<Rightarrow> store" where
  "after_cascade conditions s =
     cascade
       (cascadeRoots (showControlledFields conditions)
          (meta (evaluateConditions (st_values s) conditions)))
       (after_meta conditions s)"

definition run_pass :: "ConditionRule list \<Rightarrow> store \<Rightarrow> store" where
  "run_pass conditions s =
     apply_values (desiredValues (evaluateConditions (st_values s) conditions))
       (after_cascade conditions s)"

text \<open>
  \<open>run\<close> with its re-entrancy guard: the flag \<open>running\<close> is the bridge's own, true only
  while a pass is under way.
\<close>

definition run :: "ConditionRule list \<Rightarrow> bool \<times> store \<Rightarrow> bool \<times> store" where
  "run conditions st =
     (case st of (running, s) \<Rightarrow>
        if running then (running, s) else (False, run_pass conditions s))"

section \<open>Rule sets used as examples\<close>

text \<open>
  A \<open>set\<close> effect with its function replaced by the value the function has on a given
  value map: what the effect contributes when the function is called on that map.
\<close>

definition resolve_effect :: "FieldValueMap \<Rightarrow> ConditionEffect \<Rightarrow> ConditionEffect" where
  "resolve_effect values0 e =
     (case e of SetEff f (Compute g) \<Rightarrow> SetEff f (Literal (g values0)) | _ \<Rightarrow> e)"

definition resolve_rule :: "FieldValueMap \<Rightarrow> ConditionRule \<Rightarrow> ConditionRule" where
  "resolve_rule values0 r = r\<lparr>rule_effects := map (resolve_effect values0) (rule_effects r)\<rparr>"

text \<open>\<open>when(v.qty > 10).setValue("total", v => v.qty * v.price * 0.9)\<close>.\<close>

definition discount_rule :: ConditionRule where
  "discount_rule =
     \<lparr>rule_when = (\<lambda>v. case get_prop v ''qty'' of VNum q \<Rightarrow> q > 10 | _ \<Rightarrow> False),
      rule_effects = [SetEff ''total'' (Compute (\<lambda>v.
         case (get_prop v ''qty'', get_prop v ''price'') of
           (VNum q, VNum p) \<Rightarrow> VNum (q * p * 0.9) | _ \<Rightarrow> VNaN))],
      rule_priority = None\<rparr>"

text \<open>Two rules that are always true and conflict on the field \<open>f\<close>.\<close>

definition show_f_priority_10 :: ConditionRule where
  "show_f_priority_10 =
     \<lparr>rule_when = (\<lambda>v. True), rule_effects = [Show ''f''], rule_priority = Some 10\<rparr>"

definition hide_f_priority_5 :: ConditionRule where
  "hide_f_priority_5 =
     \<lparr>rule_when = (\<lambda>v. True), rule_effects = [Hide ''f''], rule_priority = Some 5\<rparr>"

text \<open>A store with the single field \<open>a\<close> registered.\<close>

definition store_a :: store where
  "store_a = register ''a'' VNull createFormStore"

text \<open>The index as a relation from a path to its children.\<close>

definition child_rel :: "string list \<Rightarrow> (string \<times> string) set" where
  "child_rel keys = {(p, k). k \<in> set (kids_of keys p)}"

text \<open>A meta object whose \<open>visible\<close> is defined and equal to its \<open>validate\<close>.\<close>

definition coherent :: "FieldMeta option \<Rightarrow> bool" where
  "coherent m = (opt_visible m \<noteq> None \<and> opt_validate m = opt_visible m)"

text \<open>Example rule sets and stores for the bridge: a rule with a constant predicate,
  stores with a few registered fields, and the cascade roots of a pass.\<close>

definition rule_of :: "bool \<Rightarrow> ConditionEffect list \<Rightarrow> ConditionRule" where
  "rule_of b es = \<lparr>rule_when = (\<lambda>v. b), rule_effects = es, rule_priority = None\<rparr>"


definition store_user :: store where
  "store_user = register ''user.address.street'' VNull (register ''user'' VNull createFormStore)"

definition store_abc :: store where
  "store_abc = register ''a.b.c'' VNull (register ''a.b'' VNull (register ''a'' VNull createFormStore))"

definition store_p :: store where
  "store_p = register ''p.a.b'' VNull (register ''p.a'' VNull (register ''p'' VNull createFormStore))"

definition rules_hide_a :: "ConditionRule list" where
  "rules_hide_a = [rule_of True [Hide ''a'']]"

definition rules_hide_user :: "ConditionRule list" where
  "rules_hide_user = [rule_of True [Hide ''user'']]"



definition rules_hide_pa_show_p :: "ConditionRule list" where
  "rules_hide_pa_show_p = [rule_of True [Hide ''p.a''], rule_of True [Show ''p'']]"

definition pass_roots :: "ConditionRule list \<Rightarrow> store \<Rightarrow> string list" where
  "pass_roots conditions s =
     cascadeRoots (showControlledFields conditions)
       (meta (evaluateConditions (st_values s) conditions))"

section \<open>Dependency tracing (condition-graph.ts)\<close>

text \<open>
  A predicate is handed the proxy and can do two things with it that matter here: read
  a property, and in the end return a value or throw. It is modelled by what it does:
  a tree of property reads, each continuing with the value read. Property keys are
  strings or symbols. Reads of inherited properties are not told apart from reads of
  absent ones: both give \<open>undefined\<close>.
\<close>

datatype prop_key = StrKey string | SymKey nat

datatype 'r reader = Return 'r | Throw | Get prop_key "val \<Rightarrow> 'r reader"

datatype 'r outcome = Returned 'r | Thrown

text \<open>\<open>Reflect.get(target, prop, receiver)\<close> on the value map.\<close>

definition reflect_get :: "FieldValueMap \<Rightarrow> prop_key \<Rightarrow> val" where
  "reflect_get target prop = (case prop of StrKey k \<Rightarrow> get_prop target k | SymKey n \<Rightarrow> VUndefined)"

text \<open>
  \<open>fn(proxy)\<close>: every read goes through the \<open>get\<close> trap, which adds a string key to the
  set \<open>reads\<close> and answers with the target's property.
\<close>

primrec call_on_proxy :: "'r reader \<Rightarrow> FieldValueMap \<Rightarrow> string list \<Rightarrow> string list \<times> 'r outcome" where
  "call_on_proxy (Return r) target reads = (reads, Returned r)"
| "call_on_proxy Throw target reads = (reads, Thrown)"
| "call_on_proxy (Get prop k) target reads =
     call_on_proxy (k (reflect_get target prop)) target
       (case prop of StrKey key \<Rightarrow> set_add reads key | SymKey n \<Rightarrow> reads)"

text \<open>
  How a call completes: normally with a value, or abruptly with the exception that
  escapes it.
\<close>

datatype 'a completion = Normal 'a | Abrupt

text \<open>
  \<open>traceReads(fn, values)\<close>: \<open>try { fn(proxy) } catch { }\<close>, then \<open>return reads\<close>.
\<close>

definition traceReads :: "'r reader \<Rightarrow> FieldValueMap \<Rightarrow> string list completion" where
  "traceReads fn values0 =
     (case call_on_proxy fn values0 [] of
        (reads, Thrown) \<Rightarrow> Normal reads
      | (reads, Returned r) \<Rightarrow> Normal reads)"

text \<open>
  The property reads a predicate performs on a value map, in order: what the claim
  about \<open>traceReads\<close> calls the properties read during one invocation.
\<close>

primrec reads_performed :: "'r reader \<Rightarrow> FieldValueMap \<Rightarrow> prop_key list" where
  "reads_performed (Return r) target = []"
| "reads_performed Throw target = []"
| "reads_performed (Get prop k) target = prop # reads_performed (k (reflect_get target prop)) target"

text \<open>A predicate that reads \<open>x\<close>, then \<open>y\<close> when \<open>x\<close> is true, and then throws.\<close>

definition throwing_predicate :: "bool reader" where
  "throwing_predicate =
     Get (StrKey ''x'') (\<lambda>x. if x = VBool True then Get (StrKey ''y'') (\<lambda>y. Throw) else Throw)"

section \<open>The condition DSL (condition-dsl)\<close>

text \<open>
  The builders hold their effects in arrays, and one of the two builder classes pushes
  onto its array in place. Arrays therefore live in a heap and are known by reference.
\<close>

type_synonym ref = nat

record heap =
  cells :: "ref \<Rightarrow> ConditionEffect list"
  next_ref :: ref

definition empty_heap :: heap where
  "empty_heap = \<lparr>cells = (\<lambda>r. []), next_ref = 0\<rparr>"

text \<open>A new array (an array literal or a spread copy).\<close>

definition alloc :: "ConditionEffect list \<Rightarrow> heap \<Rightarrow> ref \<times> heap" where
  "alloc xs h = (next_ref h, h\<lparr>cells := (cells h)(next_ref h := xs), next_ref := Suc (next_ref h)\<rparr>)"

text \<open>\<open>array.push(x)\<close>.\<close>

definition push :: "ref \<Rightarrow> ConditionEffect \<Rightarrow> heap \<Rightarrow> heap" where
  "push r x h = h\<lparr>cells := (cells h)(r := cells h r @ [x])\<rparr>"

text \<open>
  A field reference: a path string, or a selector function. A selector is known by the
  chain of properties it reads off the path proxy and by its source text (what
  \<open>String(field)\<close> gives when the builder has no resolver).
\<close>

datatype FieldRef = Path string | Selector "string list" string

text \<open>\<open>resolveField(field)\<close>; \<open>getField\<close> tells whether the builder has a resolver.\<close>

definition resolveField :: "bool \<Rightarrow> FieldRef \<Rightarrow> string" where
  "resolveField getField field =
     (case field of Path p \<Rightarrow> p
      | Selector chain source \<Rightarrow> if \<not> getField then source else join_dot chain)"

record UntypedConditionRule =
  ur_when :: "FieldValueMap \<Rightarrow> bool"
  ur_effects :: ref
  ur_priority :: "real option"

record EffectBuilder =
  eb_whenFn :: "FieldValueMap \<Rightarrow> bool"
  eb_effects :: ref
  eb_priority :: "real option"
  eb_getField :: bool

record ElseEffectBuilder =
  ee_whenFn :: "FieldValueMap \<Rightarrow> bool"
  ee_thenEffects :: ref
  ee_elseEffects :: ref
  ee_priority :: "real option"
  ee_getField :: bool

definition invertWhen :: "(FieldValueMap \<Rightarrow> bool) \<Rightarrow> FieldValueMap \<Rightarrow> bool" where
  "invertWhen fn = (\<lambda>values0. \<not> fn values0)"

text \<open>\<open>when(predicate)\<close> and \<open>whenUntyped(predicate)\<close>.\<close>

definition when_typed :: "(FieldValueMap \<Rightarrow> bool) \<Rightarrow> heap \<Rightarrow> EffectBuilder \<times> heap" where
  "when_typed predicate h =
     (case alloc [] h of (r, h') \<Rightarrow>
        (\<lparr>eb_whenFn = (\<lambda>values0. predicate values0), eb_effects = r, eb_priority = None,
          eb_getField = True\<rparr>, h'))"

definition whenUntyped :: "(FieldValueMap \<Rightarrow> bool) \<Rightarrow> heap \<Rightarrow> EffectBuilder \<times> heap" where
  "whenUntyped predicate h =
     (case alloc [] h of (r, h') \<Rightarrow>
        (\<lparr>eb_whenFn = (\<lambda>values0. predicate values0), eb_effects = r, eb_priority = None,
          eb_getField = False\<rparr>, h'))"

text \<open>
  \<open>new EffectBuilder(this.whenFn, [...this.effects, effect], this.priority, this.getField)\<close>:
  the body shared by the effect methods of \<open>EffectBuilder\<close>.
\<close>

definition eb_with_effect :: "EffectBuilder \<Rightarrow> ConditionEffect \<Rightarrow> heap \<Rightarrow> EffectBuilder \<times> heap" where
  "eb_with_effect b effect h =
     (case alloc (cells h (eb_effects b) @ [effect]) h of (r, h') \<Rightarrow> (b\<lparr>eb_effects := r\<rparr>, h'))"

definition eb_show :: "EffectBuilder \<Rightarrow> FieldRef \<Rightarrow> heap \<Rightarrow> EffectBuilder \<times> heap" where
  "eb_show b field h = eb_with_effect b (Show (resolveField (eb_getField b) field)) h"

definition eb_hide :: "EffectBuilder \<Rightarrow> FieldRef \<Rightarrow> heap \<Rightarrow> EffectBuilder \<times> heap" where
  "eb_hide b field h = eb_with_effect b (Hide (resolveField (eb_getField b) field)) h"

definition eb_enable :: "EffectBuilder \<Rightarrow> FieldRef \<Rightarrow> heap \<Rightarrow> EffectBuilder \<times> heap" where
  "eb_enable b field h = eb_with_effect b (Enable (resolveField (eb_getField b) field)) h"

definition eb_disable :: "EffectBuilder \<Rightarrow> FieldRef \<Rightarrow> heap \<Rightarrow> EffectBuilder \<times> heap" where
  "eb_disable b field h = eb_with_effect b (Disable (resolveField (eb_getField b) field)) h"

definition eb_set :: "EffectBuilder \<Rightarrow> string \<Rightarrow> setval \<Rightarrow> heap \<Rightarrow> EffectBuilder \<times> heap" where
  "eb_set b field v h = eb_with_effect b (SetEff field v) h"

text \<open>
  \<open>setValue\<close> wraps a function value in a function that calls it; the two agree on every
  value map.
\<close>

definition runtimeValue :: "setval \<Rightarrow> setval" where
  "runtimeValue v = (case v of Compute g \<Rightarrow> Compute (\<lambda>values0. g values0) | Literal x \<Rightarrow> Literal x)"

definition eb_setValue :: "EffectBuilder \<Rightarrow> FieldRef \<Rightarrow> setval \<Rightarrow> heap \<Rightarrow> EffectBuilder \<times> heap" where
  "eb_setValue b field v h =
     eb_with_effect b (SetEff (resolveField (eb_getField b) field) (runtimeValue v)) h"

definition eb_clear :: "EffectBuilder \<Rightarrow> FieldRef \<Rightarrow> heap \<Rightarrow> EffectBuilder \<times> heap" where
  "eb_clear b field h = eb_with_effect b (Clear (resolveField (eb_getField b) field)) h"

definition eb_withPriority :: "EffectBuilder \<Rightarrow> real \<Rightarrow> heap \<Rightarrow> EffectBuilder \<times> heap" where
  "eb_withPriority b p h = (b\<lparr>eb_priority := Some p\<rparr>, h)"

text \<open>\<open>else()\<close>: the new builder shares the then-effects array and gets an empty array of its own.\<close>

definition eb_else :: "EffectBuilder \<Rightarrow> heap \<Rightarrow> ElseEffectBuilder \<times> heap" where
  "eb_else b h =
     (case alloc [] h of (r, h') \<Rightarrow>
        (\<lparr>ee_whenFn = eb_whenFn b, ee_thenEffects = eb_effects b, ee_elseEffects = r,
          ee_priority = eb_priority b, ee_getField = eb_getField b\<rparr>, h'))"

definition eb_toRules :: "EffectBuilder \<Rightarrow> UntypedConditionRule list" where
  "eb_toRules b = [\<lparr>ur_when = eb_whenFn b, ur_effects = eb_effects b, ur_priority = eb_priority b\<rparr>]"

text \<open>
  The effect methods of \<open>ElseEffectBuilder\<close>: \<open>this.elseEffects.push(effect); return this\<close>.
\<close>

definition ee_with_effect :: "ElseEffectBuilder \<Rightarrow> ConditionEffect \<Rightarrow> heap \<Rightarrow> ElseEffectBuilder \<times> heap" where
  "ee_with_effect b effect h = (b, push (ee_elseEffects b) effect h)"

definition ee_show :: "ElseEffectBuilder \<Rightarrow> FieldRef \<Rightarrow> heap \<Rightarrow> ElseEffectBuilder \<times> heap" where
  "ee_show b field h = ee_with_effect b (Show (resolveField (ee_getField b) field)) h"

definition ee_hide :: "ElseEffectBuilder \<Rightarrow> FieldRef \<Rightarrow> heap \<Rightarrow> ElseEffectBuilder \<times> heap" where
  "ee_hide b field h = ee_with_effect b (Hide (resolveField (ee_getField b) field)) h"

definition ee_enable :: "ElseEffectBuilder \<Rightarrow> FieldRef \<Rightarrow> heap \<Rightarrow> ElseEffectBuilder \<times> heap" where
  "ee_enable b field h = ee_with_effect b (Enable (resolveField (ee_getField b) field)) h"

definition ee_disable :: "ElseEffectBuilder \<Rightarrow> FieldRef \<Rightarrow> heap \<Rightarrow> ElseEffectBuilder \<times> heap" where
  "ee_disable b field h = ee_with_effect b (Disable (resolveField (ee_getField b) field)) h"

definition ee_set :: "ElseEffectBuilder \<Rightarrow> string \<Rightarrow> setval \<Rightarrow> heap \<Rightarrow> ElseEffectBuilder \<times> heap" where
  "ee_set b field v h = ee_with_effect b (SetEff field v) h"

definition ee_setValue :: "ElseEffectBuilder \<Rightarrow> FieldRef \<Rightarrow> setval \<Rightarrow> heap \<Rightarrow> ElseEffectBuilder \<times> heap" where
  "ee_setValue b field v h =
     ee_with_effect b (SetEff (resolveField (ee_getField b) field) (runtimeValue v)) h"

definition ee_clear :: "ElseEffectBuilder \<Rightarrow> FieldRef \<Rightarrow> heap \<Rightarrow> ElseEffectBuilder \<times> heap" where
  "ee_clear b field h = ee_with_effect b (Clear (resolveField (ee_getField b) field)) h"

text \<open>\<open>withPriority\<close> of the else builder constructs a new builder, whose else-effects start empty.\<close>

definition ee_withPriority :: "ElseEffectBuilder \<Rightarrow> real \<Rightarrow> heap \<Rightarrow> ElseEffectBuilder \<times> heap" where
  "ee_withPriority b p h =
     (case alloc [] h of (r, h') \<Rightarrow> (b\<lparr>ee_elseEffects := r, ee_priority := Some p\<rparr>, h'))"

definition ee_toRules :: "ElseEffectBuilder \<Rightarrow> UntypedConditionRule list" where
  "ee_toRules b =
     [\<lparr>ur_when = ee_whenFn b, ur_effects = ee_thenEffects b, ur_priority = ee_priority b\<rparr>,
      \<lparr>ur_when = invertWhen (ee_whenFn b), ur_effects = ee_elseEffects b,
        ur_priority = ee_priority b\<rparr>]"

text \<open>A rule as the engine reads it at a given moment: its effects array looked up in the heap.\<close>

definition rule_view :: "heap \<Rightarrow> UntypedConditionRule \<Rightarrow> ConditionRule" where
  "rule_view h r =
     \<lparr>rule_when = ur_when r, rule_effects = cells h (ur_effects r), rule_priority = ur_priority r\<rparr>"

text \<open>A call of one of the seven effect-appending methods, to range over all of them.\<close>

datatype effect_call =
    CallShow FieldRef
  | CallHide FieldRef
  | CallEnable FieldRef
  | CallDisable FieldRef
  | CallSet string setval
  | CallSetValue FieldRef setval
  | CallClear FieldRef

fun eb_call :: "effect_call \<Rightarrow> EffectBuilder \<times> heap \<Rightarrow> EffectBuilder \<times> heap" where
  "eb_call (CallShow f) (b, h) = eb_show b f h"
| "eb_call (CallHide f) (b, h) = eb_hide b f h"
| "eb_call (CallEnable f) (b, h) = eb_enable b f h"
| "eb_call (CallDisable f) (b, h) = eb_disable b f h"
| "eb_call (CallSet f v) (b, h) = eb_set b f v h"
| "eb_call (CallSetValue f v) (b, h) = eb_setValue b f v h"
| "eb_call (CallClear f) (b, h) = eb_clear b f h"

fun ee_call :: "effect_call \<Rightarrow> ElseEffectBuilder \<times> heap \<Rightarrow> ElseEffectBuilder \<times> heap" where
  "ee_call (CallShow f) (b, h) = ee_show b f h"
| "ee_call (CallHide f) (b, h) = ee_hide b f h"
| "ee_call (CallEnable f) (b, h) = ee_enable b f h"
| "ee_call (CallDisable f) (b, h) = ee_disable b f h"
| "ee_call (CallSet f v) (b, h) = ee_set b f v h"
| "ee_call (CallSetValue f v) (b, h) = ee_setValue b f v h"
| "ee_call (CallClear f) (b, h) = ee_clear b f h"

text \<open>The fields a rule triggers on a value map: the targets of its effects when its predicate holds.\<close>

definition triggered_fields :: "heap \<Rightarrow> UntypedConditionRule \<Rightarrow> FieldValueMap \<Rightarrow> string set" where
  "triggered_fields h r values0 =
     (if ur_when r values0 then effect_field ` set (cells h (ur_effects r)) else {})"

section \<open>Field validation (validatable.ts, ndc-form)\<close>

text \<open>
  \<open>isEffectivelyValidatable(path, meta)\<close>: the loop over the dot segments, with the
  prefix built so far in \<open>current\<close>.
\<close>

fun validatable_loop :: "string list \<Rightarrow> string \<Rightarrow> (string \<rightharpoonup> FieldMeta) \<Rightarrow> bool" where
  "validatable_loop [] current m = True"
| "validatable_loop (part # parts) current m =
     (let current' = (if current \<noteq> [] then current @ ''.'' @ part else part)
      in if opt_visible (m current') = Some False then False
         else if opt_validate (m current') = Some False then False
         else validatable_loop parts current' m)"

definition isEffectivelyValidatable :: "string \<Rightarrow> (string \<rightharpoonup> FieldMeta) \<Rightarrow> bool" where
  "isEffectivelyValidatable path m = validatable_loop (split_dot path) [] m"

text \<open>\<open>store.validation.lastValidatedValue[key]\<close>: an absent entry reads as undefined.\<close>

definition lv_get :: "store \<Rightarrow> string \<Rightarrow> val" where
  "lv_get s key = (case st_lastValidated s key of None \<Rightarrow> VUndefined | Some v \<Rightarrow> v)"

text \<open>\<open>store.errors[key] ?? null\<close>.\<close>

definition error_or_null :: "string option option \<Rightarrow> string option" where
  "error_or_null e = (case e of Some (Some msg) \<Rightarrow> Some msg | _ \<Rightarrow> None)"

text \<open>\<open>if (msg)\<close> on a validator's synchronous result.\<close>

definition msg_truthy :: "string option \<Rightarrow> bool" where
  "msg_truthy msg = (case msg of Some m \<Rightarrow> m \<noteq> [] | None \<Rightarrow> False)"

text \<open>
  What the callback given to \<open>then\<close> closes over: the field and the value the validator
  was started with.
\<close>

record continuation =
  c_key :: string
  c_valueAtStart :: val

text \<open>
  The loop over the validators in \<open>validateField\<close>, and what follows it. The result is
  the value returned, the callback registered on a promise (if the loop met one), and
  the store.
\<close>

fun run_rules :: "validator list \<Rightarrow> string \<Rightarrow> val \<Rightarrow> store
    \<Rightarrow> string option \<times> continuation option \<times> store" where
  "run_rules [] key v s = (None, None, clear_error_if_set key s)"
| "run_rules (rule # rules) key v s =
     (case rule v (st_values s) of
        Async p \<Rightarrow>
          (None, Some \<lparr>c_key = key, c_valueAtStart = v\<rparr>,
           notify (NotifyError key) (s\<lparr>st_pending := insert key (st_pending s)\<rparr>))
      | Sync msg \<Rightarrow>
          if msg_truthy msg
          then (msg, None,
                if st_errors s key \<noteq> Some msg
                then notify (NotifyError key) (s\<lparr>st_errors := (st_errors s)(key \<mapsto> msg)\<rparr>)
                else s)
          else run_rules rules key v s)"

definition validateField :: "string \<Rightarrow> store \<Rightarrow> string option \<times> continuation option \<times> store" where
  "validateField key s =
     (if \<not> isEffectivelyValidatable key (st_meta s)
      then (None, None,
            clear_error_if_set key
              (s\<lparr>st_pending := st_pending s - {key},
                 st_lastValidated := (st_lastValidated s)(key := None)\<rparr>))
      else if key \<in> st_pending s then (error_or_null (st_errors s key), None, s)
      else
        (let v = get_prop (st_values s) key
         in case st_validators s key of
              None \<Rightarrow> (None, None, clear_error_if_set key s)
            | Some [] \<Rightarrow> (None, None, clear_error_if_set key s)
            | Some (rule # rules) \<Rightarrow>
                if strict_eq (lv_get s key) v then (error_or_null (st_errors s key), None, s)
                else run_rules (rule # rules) key v
                       (s\<lparr>st_lastValidated := (st_lastValidated s)(key \<mapsto> v)\<rparr>)))"

text \<open>The callback, run when the promise resolves with \<open>msg\<close>.\<close>

definition async_resolved :: "continuation \<Rightarrow> string option \<Rightarrow> store \<Rightarrow> store" where
  "async_resolved c msg s =
     (let key = c_key c
      in if \<not> isEffectivelyValidatable key (st_meta s)
         then s\<lparr>st_pending := st_pending s - {key}\<rparr>
         else if \<not> strict_eq (lv_get s key) (c_valueAtStart c)
         then s\<lparr>st_pending := st_pending s - {key}\<rparr>
         else
           (let s1 = s\<lparr>st_pending := st_pending s - {key}\<rparr>
            in if st_errors s1 key \<noteq> Some msg
               then notify (NotifyError key) (s1\<lparr>st_errors := (st_errors s1)(key \<mapsto> msg)\<rparr>)
               else s1))"

definition setValidators :: "string \<Rightarrow> validator list option \<Rightarrow> store \<Rightarrow> store" where
  "setValidators name validators s =
     s\<lparr>st_validators := (st_validators s)(name := validators),
       st_lastValidated := (st_lastValidated s)(name := None)\<rparr>"

text \<open>
  Calls on the store that may come between the start of an asynchronous validation and
  its resolution, and a sequence of them run in order. The promises such a call starts
  are not followed here; the resolution of any promise is a call of its own.
\<close>

datatype store_call =
    StoreSetValue string val
  | StoreSetMeta string FieldMeta
  | StoreClearError string
  | StoreSetValidators string "validator list option"
  | StoreValidateField string
  | StoreResolved continuation "string option"

fun store_step :: "store_call \<Rightarrow> store \<Rightarrow> store" where
  "store_step (StoreSetValue key v) s = setValue key v s"
| "store_step (StoreSetMeta name m) s = setMeta name m s"
| "store_step (StoreClearError key) s = clearError key s"
| "store_step (StoreSetValidators name vs) s = setValidators name vs s"
| "store_step (StoreValidateField key) s = snd (snd (validateField key s))"
| "store_step (StoreResolved c msg) s = async_resolved c msg s"

definition store_steps :: "store_call list \<Rightarrow> store \<Rightarrow> store" where
  "store_steps calls s = fold store_step calls s"

text \<open>
  A sequence of calls, run from the store \<open>s\<close>, in which the field \<open>key\<close> is never
  validated afresh at a value identical to \<open>v0\<close>: at each \<open>validateField(key)\<close> in it,
  the field is still pending or its value is not identical (\<open>===\<close>) to \<open>v0\<close>.
\<close>

fun revalidation_free :: "string \<Rightarrow> val \<Rightarrow> store_call list \<Rightarrow> store \<Rightarrow> bool" where
  "revalidation_free key v0 [] s = True"
| "revalidation_free key v0 (call # calls) s =
     ((case call of
         StoreValidateField k \<Rightarrow>
           k \<noteq> key \<or> key \<in> st_pending s \<or> \<not> strict_eq (get_prop (st_values s) key) v0
       | _ \<Rightarrow> True)
      \<and> revalidation_free key v0 calls (store_step call s))"

text \<open>
  The store keeps a last-validated value only for the value the field now has: every
  write of a value deletes the record.
\<close>

definition lv_consistent :: "store \<Rightarrow> bool" where
  "lv_consistent s = (\<forall>k. lv_get s k = VUndefined \<or> lv_get s k = get_prop (st_values s) k)"

text \<open>
  A field \<open>k\<close> with one asynchronous validator, and a history: validation starts at the
  value \<open>v\<close>; the value is set to \<open>w\<close> and back to \<open>v\<close>; the field is hidden and shown
  again; validation starts a second time.
\<close>

definition store_k :: store where
  "store_k = setValidators ''k'' (Some [\<lambda>v vs. Async 0]) (register ''k'' (VStr ''v'') createFormStore)"

definition first_dispatch :: "string option \<times> continuation option \<times> store" where
  "first_dispatch = validateField ''k'' store_k"

definition first_continuation :: continuation where
  "first_continuation = \<lparr>c_key = ''k'', c_valueAtStart = VStr ''v''\<rparr>"

definition store_k_revalidated :: store where
  "store_k_revalidated =
     store_steps
       [StoreSetValue ''k'' (VStr ''w''), StoreSetValue ''k'' (VStr ''v''),
        StoreSetMeta ''k'' hidden_patch, StoreSetMeta ''k'' shown_patch,
        StoreValidateField ''k'']
       (snd (snd first_dispatch))"

text \<open>
  Two shorter histories after the first start: the value is set to \<open>w\<close> and the field is
  validated again while the first validation is pending; and the value is set to \<open>w\<close>
  and back to \<open>v\<close> before that second call.
\<close>

definition store_k_blurred :: store where
  "store_k_blurred =
     store_steps [StoreSetValue ''k'' (VStr ''w''), StoreValidateField ''k'']
       (snd (snd first_dispatch))"

definition store_k_restored :: store where
  "store_k_restored =
     store_steps
       [StoreSetValue ''k'' (VStr ''w''), StoreSetValue ''k'' (VStr ''v''),
        StoreValidateField ''k'']
       (snd (snd first_dispatch))"

text \<open>
  \<open>when(P).show("A").else()\<close> on an empty heap, with \<open>P\<close> the test
  \<open>v.t === "credit"\<close>.
\<close>

definition credit_predicate :: "FieldValueMap \<Rightarrow> bool" where
  "credit_predicate v = (get_prop v ''t'' = VStr ''credit'')"

definition else_builder_example :: "ElseEffectBuilder \<times> heap" where
  "else_builder_example =
     (case when_typed credit_predicate empty_heap of (b, h) \<Rightarrow>
        (case eb_show b (Path ''A'') h of (b', h') \<Rightarrow> eb_else b' h'))"

section \<open>The engine: priorities and set functions\<close>

lemma insort_key_map_same:
  "(\<And>y. f (g y) = f y) \<Longrightarrow> insort_key f (g x) (map g xs) = map g (insort_key f x xs)"
  by (induction xs) simp_all

lemma sort_key_map_same:
  "(\<And>y. f (g y) = f y) \<Longrightarrow> sort_key f (map g xs) = map g (sort_key f xs)"
  by (induction xs) (simp_all add: insort_key_map_same)

lemma sort_rules_resolve:
  "sort_rules (map (resolve_rule v) rs) = map (resolve_rule v) (sort_rules rs)"
  unfolding sort_rules_def
  by (rule sort_key_map_same) (simp add: priority_or_0_def resolve_rule_def)

lemma applyEffect_resolve: "applyEffect (resolve_effect v e) v acc = applyEffect e v acc"
  by (cases e) (auto simp: resolve_effect_def split: setval.splits)

lemma fold_applyEffect_resolve:
  "fold (\<lambda>e. applyEffect e v) (map (resolve_effect v) es) acc = fold (\<lambda>e. applyEffect e v) es acc"
  by (induction es arbitrary: acc) (simp_all add: applyEffect_resolve)

lemma apply_rule_resolve: "apply_rule v (resolve_rule v r) = apply_rule v r"
  by (rule ext) (simp add: apply_rule_def resolve_rule_def fold_applyEffect_resolve)

lemma fold_apply_rule_resolve:
  "fold (apply_rule v) (map (resolve_rule v) rs) acc = fold (apply_rule v) rs acc"
  by (induction rs arbitrary: acc) (simp_all add: apply_rule_resolve)

text \<open>
  Claim C1, at the input where it fails. The rule set holds a rule of priority 10 that
  shows \<open>f\<close> and a rule of priority 5 that hides \<open>f\<close>; both predicates are true on
  every value map. The engine sorts by descending priority and lets the later write
  win, so in either declaration order the result holds the effect of the priority-5
  rule: \<open>f\<close> is hidden.
\<close>

theorem priority_5_overwrites_priority_10:
  "meta (evaluateConditions values0 [show_f_priority_10, hide_f_priority_5])
     = [(''f'', \<lparr>em_visible = Some False, em_enabled = None\<rparr>)]
   \<and> meta (evaluateConditions values0 [hide_f_priority_5, show_f_priority_10])
     = [(''f'', \<lparr>em_visible = Some False, em_enabled = None\<rparr>)]"
  by (simp add: evaluateConditions_def sort_rules_def priority_or_0_def apply_rule_def
      show_f_priority_10_def hide_f_priority_5_def em_get_def em_empty_def)

text \<open>
  Claim C5. Every function of a \<open>set\<close> effect is called on the value map that
  \<open>evaluateConditions\<close> was given: for every rule set and every value map, the result is
  the result for the rule set in which each such function is replaced by its value on
  that map, whatever the patch in progress holds. For the rule
  \<open>when(v.qty > 10).setValue("total", v => v.qty * v.price * 0.9)\<close>, the values
  \<open>{qty: 20, price: 10}\<close> give \<open>desiredValues.total = 180\<close>, and \<open>{qty: 5, price: 10}\<close>
  give a patch with no entry for \<open>total\<close>.
\<close>

theorem set_functions_get_input_values:
  "evaluateConditions v rs = evaluateConditions v (map (resolve_rule v) rs)
   \<and> map_of (desiredValues (evaluateConditions [(''qty'', VNum 20), (''price'', VNum 10)]
        [discount_rule])) ''total'' = Some (VNum 180)
   \<and> map_of (desiredValues (evaluateConditions [(''qty'', VNum 5), (''price'', VNum 10)]
        [discount_rule])) ''total'' = None"
proof (intro conjI)
  show "evaluateConditions v rs = evaluateConditions v (map (resolve_rule v) rs)"
    by (simp add: evaluateConditions_def sort_rules_resolve fold_apply_rule_resolve)
  show "map_of (desiredValues (evaluateConditions [(''qty'', VNum 20), (''price'', VNum 10)]
        [discount_rule])) ''total'' = Some (VNum 180)"
    by (simp add: evaluateConditions_def sort_rules_def apply_rule_def discount_rule_def
        get_prop_def)
  show "map_of (desiredValues (evaluateConditions [(''qty'', VNum 5), (''price'', VNum 10)]
        [discount_rule])) ''total'' = None"
    by (simp add: evaluateConditions_def sort_rules_def apply_rule_def discount_rule_def
        get_prop_def)
qed

section \<open>Meta writes: frame and change suppression\<close>

lemma st_values_notify [simp]: "st_values (notify e s) = st_values s"
  by (simp add: notify_def)
lemma st_meta_notify [simp]: "st_meta (notify e s) = st_meta s"
  by (simp add: notify_def)
lemma st_values_clear_error [simp]: "st_values (clear_error_if_set k s) = st_values s"
  by (simp add: clear_error_if_set_def)
lemma st_meta_clear_error [simp]: "st_meta (clear_error_if_set k s) = st_meta s"
  by (simp add: clear_error_if_set_def)

lemma st_values_setMeta [simp]: "st_values (setMeta name p s) = st_values s"
  by (simp add: setMeta_def Let_def)

lemma st_meta_setMeta:
  "st_meta (setMeta name p s) =
     (st_meta s)(name \<mapsto> spread_meta (case st_meta s name of None \<Rightarrow> defaultMeta | Some m \<Rightarrow> m) p)"
  by (simp add: setMeta_def Let_def)

lemma st_values_setMetaIfChanged [simp]: "st_values (setMetaIfChanged name p s) = st_values s"
  by (simp add: setMetaIfChanged_def Let_def)

lemma st_meta_setMetaIfChanged_other:
  "g \<noteq> name \<Longrightarrow> st_meta (setMetaIfChanged name p s) g = st_meta s g"
  by (simp add: setMetaIfChanged_def Let_def st_meta_setMeta)

lemma FieldMeta_eqI:
  "visible a = visible b \<Longrightarrow> validate a = validate b \<Longrightarrow> enabled a = enabled b
    \<Longrightarrow> (a :: FieldMeta) = b"
  by simp

lemma st_meta_setMetaIfChanged_same:
  "st_meta (setMetaIfChanged name p s) name =
     Some (spread_meta (case st_meta s name of None \<Rightarrow> defaultMeta | Some m \<Rightarrow> m) p)"
proof (cases "metaShallowEqual (getMeta s name) (Some (merged_meta (getMeta s name) p))")
  case False
  then show ?thesis by (simp add: setMetaIfChanged_def Let_def st_meta_setMeta)
next
  case True
  then obtain m where m: "st_meta s name = Some m"
    by (cases "st_meta s name")
       (auto simp: metaShallowEqual_def getMeta_def merged_meta_def opt_visible_def
          spread_meta_def split: option.splits)
  with True have "spread_meta m p = m"
    by (intro FieldMeta_eqI)
       (auto simp: metaShallowEqual_def getMeta_def merged_meta_def opt_visible_def
          opt_validate_def opt_enabled_def)
  with True m show ?thesis by (simp add: setMetaIfChanged_def Let_def)
qed

lemma spread_meta_idem: "spread_meta (spread_meta a p) p = spread_meta a p"
  by (auto simp: spread_meta_def split: option.splits)

lemma setMetaIfChanged_noop:
  "st_meta s name = Some m \<Longrightarrow> spread_meta m p = m \<Longrightarrow> setMetaIfChanged name p s = s"
  by (simp add: setMetaIfChanged_def Let_def getMeta_def merged_meta_def metaShallowEqual_def
      opt_visible_def opt_validate_def opt_enabled_def)

lemma setMetaIfChanged_idem:
  "setMetaIfChanged name p (setMetaIfChanged name p s) = setMetaIfChanged name p s"
  by (rule setMetaIfChanged_noop [OF st_meta_setMetaIfChanged_same]) (rule spread_meta_idem)

lemma setMetaIfChanged_changes:
  "setMetaIfChanged name p s \<noteq> s \<Longrightarrow>
     opt_visible (getMeta s name) \<noteq> visible (merged_meta (getMeta s name) p)
   \<or> opt_enabled (getMeta s name) \<noteq> enabled (merged_meta (getMeta s name) p)
   \<or> opt_validate (getMeta s name) \<noteq> validate (merged_meta (getMeta s name) p)"
  by (auto simp: setMetaIfChanged_def Let_def metaShallowEqual_def opt_visible_def
      opt_validate_def opt_enabled_def split: if_splits)

lemma store_a_meta: "st_meta store_a ''a'' = Some defaultMeta"
  by (simp add: store_a_def register_def createFormStore_def)

text \<open>
  Claim C8. A meta write of the bridge (\<open>setMetaIfChanged\<close>) changes the store, its
  notification log included, only if one of \<open>visible\<close>, \<open>enabled\<close>, \<open>validate\<close> of the
  merged object differs from the field's current meta. A patch that agrees with the
  field's current meta leaves the store as it is, and applying the same patch a second
  time leaves the store as the first application made it: no notification is added to
  the log and the stored meta is the same.
\<close>

theorem meta_write_only_on_change:
  "(setMetaIfChanged name patch s \<noteq> s \<longrightarrow>
      opt_visible (getMeta s name) \<noteq> visible (merged_meta (getMeta s name) patch)
    \<or> opt_enabled (getMeta s name) \<noteq> enabled (merged_meta (getMeta s name) patch)
    \<or> opt_validate (getMeta s name) \<noteq> validate (merged_meta (getMeta s name) patch))
   \<and> (getMeta s name = Some m \<and> spread_meta m patch = m \<longrightarrow> setMetaIfChanged name patch s = s)
   \<and> setMetaIfChanged name patch (setMetaIfChanged name patch s) = setMetaIfChanged name patch s
   \<and> st_log (setMetaIfChanged name patch (setMetaIfChanged name patch s))
       = st_log (setMetaIfChanged name patch s)"
  using setMetaIfChanged_changes [of name patch s] setMetaIfChanged_noop [of s name m patch]
  by (simp add: setMetaIfChanged_idem getMeta_def)

theorem meta_write_only_on_change_witness:
  "setMetaIfChanged ''a'' hidden_patch store_a \<noteq> store_a
   \<and> opt_visible (getMeta store_a ''a'') \<noteq> visible (merged_meta (getMeta store_a ''a'') hidden_patch)
   \<and> getMeta store_a ''a'' = Some defaultMeta
   \<and> spread_meta defaultMeta shown_patch = defaultMeta
   \<and> setMetaIfChanged ''a'' shown_patch store_a = store_a
   \<and> st_log (setMetaIfChanged ''a'' hidden_patch (setMetaIfChanged ''a'' hidden_patch store_a))
       = st_log store_a @ [NotifyMeta ''a'']"
proof -
  have m: "getMeta store_a ''a'' = Some defaultMeta"
    by (simp add: getMeta_def store_a_meta)
  have sp: "spread_meta defaultMeta shown_patch = defaultMeta"
    by (simp add: spread_meta_def defaultMeta_def shown_patch_def)
  have "st_meta (setMetaIfChanged ''a'' hidden_patch store_a) ''a'' \<noteq> st_meta store_a ''a''"
    by (simp add: st_meta_setMetaIfChanged_same store_a_meta spread_meta_def defaultMeta_def
        hidden_patch_def)
  then have ne: "setMetaIfChanged ''a'' hidden_patch store_a \<noteq> store_a"
    by auto
  have vis: "opt_visible (getMeta store_a ''a'')
      \<noteq> visible (merged_meta (getMeta store_a ''a'') hidden_patch)"
    by (simp add: m opt_visible_def merged_meta_def spread_meta_def defaultMeta_def
        hidden_patch_def)
  have lg: "st_log (setMetaIfChanged ''a'' hidden_patch store_a) = st_log store_a @ [NotifyMeta ''a'']"
    by (simp add: setMetaIfChanged_def Let_def m getMeta_def store_a_meta merged_meta_def
        metaShallowEqual_def opt_visible_def opt_validate_def opt_enabled_def spread_meta_def
        defaultMeta_def hidden_patch_def setMeta_def clear_error_if_set_def notify_def
        store_a_def register_def createFormStore_def)
  show ?thesis
    using meta_write_only_on_change [of "''a''" hidden_patch store_a defaultMeta]
      meta_write_only_on_change [of "''a''" shown_patch store_a defaultMeta] m sp ne vis lg
    by simp
qed

section \<open>The subtree walk and the cascade\<close>

lemma cache_current_initial: "cache_current initial_cache"
  by (simp add: cache_current_def initial_cache_def build_childrenMap_def)

lemma rebuild_gives_index:
  "cache_current c \<Longrightarrow>
     childrenMap (rebuildChildrenMapIfNeeded keys c) = build_childrenMap keys
   \<and> cache_current (rebuildChildrenMapIfNeeded keys c)"
  by (simp add: cache_current_def rebuildChildrenMapIfNeeded_def)

lemma walk_stack_Nil [simp]: "walk_stack keys visit [] s = s"
  by (simp add: walk_stack.simps)

lemma walk_stack_snoc [simp]:
  "walk_stack keys visit (rest @ [cur]) s = walk_stack keys visit (rest @ kids_of keys cur) (visit cur s)"
  by (subst walk_stack.simps) simp

text \<open>Induction over the walk, for a property of the stack alone.\<close>

lemma walk_stack_induct:
  assumes nil: "Q []"
    and step: "\<And>rest cur. Q (rest @ kids_of keys cur) \<Longrightarrow> Q (rest @ [cur])"
  shows "Q stack"
proof -
  have "keys = keys \<longrightarrow> Q stack"
  proof (rule walk_stack.induct
      [of "\<lambda>ks (visit :: string \<Rightarrow> unit \<Rightarrow> unit) st s. ks = keys \<longrightarrow> Q st"
          keys "\<lambda>c u. u" stack "()"])
    fix ks :: "string list" and visit :: "string \<Rightarrow> unit \<Rightarrow> unit"
      and st :: "string list" and s :: unit
    assume IH: "\<And>x. st \<noteq> [] \<Longrightarrow> x = last st \<Longrightarrow> ks = keys \<longrightarrow> Q (butlast st @ kids_of ks x)"
    show "ks = keys \<longrightarrow> Q st"
    proof
      assume k: "ks = keys"
      show "Q st"
      proof (cases "st = []")
        case True
        with nil show ?thesis by simp
      next
        case False
        then have st: "butlast st @ [last st] = st" by simp
        from IH [OF False refl] k have "Q (butlast st @ kids_of keys (last st))" by simp
        then have "Q (butlast st @ [last st])" by (rule step)
        then show ?thesis by (simp only: st)
      qed
    qed
  qed
  then show ?thesis by simp
qed

lemma walk_collect_acc:
  "walk_stack keys (\<lambda>c a. a @ [c]) stack acc = acc @ walk_order keys stack"
proof -
  have "\<forall>acc. walk_stack keys (\<lambda>c a. a @ [c]) stack acc = acc @ walk_order keys stack"
  proof (rule walk_stack_induct
      [where keys = keys and stack = stack
         and Q = "\<lambda>st. \<forall>acc. walk_stack keys (\<lambda>c a. a @ [c]) st acc = acc @ walk_order keys st"])
    show "\<forall>acc. walk_stack keys (\<lambda>c a. a @ [c]) [] acc = acc @ walk_order keys []"
      by (simp add: walk_order_def)
  next
    fix rest cur
    assume IH: "\<forall>acc. walk_stack keys (\<lambda>c a. a @ [c]) (rest @ kids_of keys cur) acc
        = acc @ walk_order keys (rest @ kids_of keys cur)"
    show "\<forall>acc. walk_stack keys (\<lambda>c a. a @ [c]) (rest @ [cur]) acc
        = acc @ walk_order keys (rest @ [cur])"
    proof
      fix acc
      have "walk_stack keys (\<lambda>c a. a @ [c]) (rest @ [cur]) acc
          = (acc @ [cur]) @ walk_order keys (rest @ kids_of keys cur)"
        using IH by simp
      moreover have "walk_order keys (rest @ [cur])
          = walk_stack keys (\<lambda>c a. a @ [c]) (rest @ kids_of keys cur) [cur]"
        by (simp add: walk_order_def)
      moreover have "walk_stack keys (\<lambda>c a. a @ [c]) (rest @ kids_of keys cur) [cur]
          = [cur] @ walk_order keys (rest @ kids_of keys cur)"
        using IH by blast
      ultimately show "walk_stack keys (\<lambda>c a. a @ [c]) (rest @ [cur]) acc
          = acc @ walk_order keys (rest @ [cur])" by simp
    qed
  qed
  then show ?thesis by simp
qed

lemma walk_order_Nil [simp]: "walk_order keys [] = []"
  by (simp add: walk_order_def)

lemma walk_order_snoc:
  "walk_order keys (rest @ [cur]) = cur # walk_order keys (rest @ kids_of keys cur)"
  using walk_collect_acc [of keys "rest @ kids_of keys cur" "[cur]"]
  by (simp add: walk_order_def)

lemma walk_stack_fold:
  "walk_stack keys visit stack s = fold visit (walk_order keys stack) s"
proof -
  have "\<forall>s. walk_stack keys visit stack s = fold visit (walk_order keys stack) s"
    by (rule walk_stack_induct
        [where keys = keys and stack = stack
           and Q = "\<lambda>st. \<forall>s. walk_stack keys visit st s = fold visit (walk_order keys st) s"])
       (simp_all add: walk_order_snoc)
  then show ?thesis by simp
qed

text \<open>The fields a walk visits are those reachable from the stack through the index.\<close>

lemma rtrancl_Image_single: "R\<^sup>* `` {x} = insert x (R\<^sup>* `` (R `` {x}))"
  by (blast elim: converse_rtranclE intro: converse_rtrancl_into_rtrancl)

lemma child_rel_Image: "child_rel keys `` {cur} = set (kids_of keys cur)"
  by (auto simp: child_rel_def)

lemma set_walk_order:
  "set (walk_order keys stack) = (child_rel keys)\<^sup>* `` set stack"
proof (rule walk_stack_induct
    [where keys = keys and stack = stack
       and Q = "\<lambda>st. set (walk_order keys st) = (child_rel keys)\<^sup>* `` set st"])
  show "set (walk_order keys []) = (child_rel keys)\<^sup>* `` set []" by simp
next
  fix rest cur
  assume IH: "set (walk_order keys (rest @ kids_of keys cur))
      = (child_rel keys)\<^sup>* `` set (rest @ kids_of keys cur)"
  have "set (walk_order keys (rest @ [cur]))
      = insert cur ((child_rel keys)\<^sup>* `` set rest \<union> (child_rel keys)\<^sup>* `` set (kids_of keys cur))"
    using IH by (simp add: walk_order_snoc Image_Un)
  also have "\<dots> = (child_rel keys)\<^sup>* `` set rest \<union> (child_rel keys)\<^sup>* `` {cur}"
    using rtrancl_Image_single [of "child_rel keys" cur] by (auto simp: child_rel_Image)
  also have "\<dots> = (child_rel keys)\<^sup>* `` set (rest @ [cur])"
    by auto
  finally show "set (walk_order keys (rest @ [cur])) = (child_rel keys)\<^sup>* `` set (rest @ [cur])" .
qed


lemma reach_refl: "r \<in> set (walk_order keys [r])"
  by (simp add: set_walk_order)

lemma reach_trans:
  "g \<in> set (walk_order keys [r]) \<Longrightarrow> f \<in> set (walk_order keys [g])
    \<Longrightarrow> f \<in> set (walk_order keys [r])"
  by (auto simp: set_walk_order intro: rtrancl_trans)

lemma fold_setMetaIfChanged_values [simp]:
  "st_values (fold (\<lambda>f. setMetaIfChanged f p) fs s) = st_values s"
  by (induction fs arbitrary: s) simp_all

lemma fold_setMetaIfChanged_other:
  "f \<notin> set fs \<Longrightarrow> st_meta (fold (\<lambda>g. setMetaIfChanged g p) fs s) f = st_meta s f"
  by (induction fs arbitrary: s) (simp_all add: st_meta_setMetaIfChanged_other)

lemma spread_meta_visible: "visible p = Some v \<Longrightarrow> visible (spread_meta a p) = Some v"
  by (simp add: spread_meta_def)

lemma spread_meta_validate: "validate p = Some v \<Longrightarrow> validate (spread_meta a p) = Some v"
  by (simp add: spread_meta_def)

lemma fold_setMetaIfChanged_in:
  assumes "f \<in> set fs" and "visible p = Some v" and "validate p = Some w"
  shows "opt_visible (st_meta (fold (\<lambda>g. setMetaIfChanged g p) fs s) f) = Some v
       \<and> opt_validate (st_meta (fold (\<lambda>g. setMetaIfChanged g p) fs s) f) = Some w"
  using assms(1)
proof (induction fs arbitrary: s)
  case Nil
  then show ?case by simp
next
  case (Cons x xs)
  show ?case
  proof (cases "f \<in> set xs")
    case True
    then show ?thesis using Cons.IH by simp
  next
    case False
    with Cons.prems have fx: "f = x" by simp
    have "st_meta (fold (\<lambda>g. setMetaIfChanged g p) (x # xs) s) f
        = st_meta (setMetaIfChanged x p s) f"
      using False by (simp add: fold_setMetaIfChanged_other)
    then show ?thesis
      using assms(2,3)
      by (simp add: fx st_meta_setMetaIfChanged_same opt_visible_def opt_validate_def
          spread_meta_visible spread_meta_validate)
  qed
qed

lemma walkSubtree_fold:
  "walkSubtree rt p s
     = fold (\<lambda>f. setMetaIfChanged f p) (walk_order (map fst (st_values s)) [rt]) s"
  by (simp add: walkSubtree_def walk_stack_fold)

lemma cascade_root_values [simp]: "st_values (cascade_root rt s) = st_values s"
  by (simp add: cascade_root_def Let_def walkSubtree_fold)

lemma cascade_root_other:
  "f \<notin> set (walk_order (map fst (st_values s)) [rt])
    \<Longrightarrow> st_meta (cascade_root rt s) f = st_meta s f"
  by (simp add: cascade_root_def Let_def walkSubtree_fold fold_setMetaIfChanged_other)

lemma cascade_root_in:
  assumes "f \<in> set (walk_order (map fst (st_values s)) [rt])"
    and "opt_visible (st_meta s rt) = Some v"
  shows "opt_visible (st_meta (cascade_root rt s) f) = Some v
       \<and> opt_validate (st_meta (cascade_root rt s) f) = Some v"
proof (cases v)
  case True
  with assms(2) have "cascade_root rt s = walkSubtree rt shown_patch s"
    by (simp add: cascade_root_def getMeta_def)
  then show ?thesis
    using fold_setMetaIfChanged_in [OF assms(1), of shown_patch True True s] True
    by (simp add: walkSubtree_fold shown_patch_def)
next
  case False
  with assms(2) have "cascade_root rt s = walkSubtree rt hidden_patch s"
    by (simp add: cascade_root_def getMeta_def)
  then show ?thesis
    using fold_setMetaIfChanged_in [OF assms(1), of hidden_patch False False s] False
    by (simp add: walkSubtree_fold hidden_patch_def)
qed

lemma cascade_root_none:
  "opt_visible (st_meta s rt) = None \<Longrightarrow> cascade_root rt s = s"
  by (simp add: cascade_root_def getMeta_def)

lemma cascade_values [simp]: "st_values (cascade roots s) = st_values s"
  unfolding cascade_def by (induction roots arbitrary: s) simp_all

text \<open>
  A field below some cascade root ends the cascade hidden when every root that reaches
  it is hidden before the cascade starts.
\<close>

lemma cascade_hides:
  assumes "\<forall>r \<in> set roots. f \<in> set (walk_order (map fst (st_values s)) [r])
             \<longrightarrow> opt_visible (st_meta s r) = Some False"
    and "(\<exists>r \<in> set roots. f \<in> set (walk_order (map fst (st_values s)) [r]))
         \<or> (opt_visible (st_meta s f) = Some False \<and> opt_validate (st_meta s f) = Some False)"
  shows "opt_visible (st_meta (cascade roots s) f) = Some False
       \<and> opt_validate (st_meta (cascade roots s) f) = Some False"
  using assms
proof (induction roots arbitrary: s)
  case Nil
  then show ?case by (simp add: cascade_def)
next
  case (Cons r rs)
  let ?keys = "map fst (st_values s)"
  let ?s' = "cascade_root r s"
  have step: "cascade (r # rs) s = cascade rs ?s'"
    by (simp add: cascade_def)
  have hyp1: "\<forall>r' \<in> set rs. f \<in> set (walk_order (map fst (st_values ?s')) [r'])
      \<longrightarrow> opt_visible (st_meta ?s' r') = Some False"
  proof (intro ballI impI)
    fix r' assume r': "r' \<in> set rs" and fr': "f \<in> set (walk_order (map fst (st_values ?s')) [r'])"
    then have fr: "f \<in> set (walk_order ?keys [r'])" by simp
    with Cons.prems(1) r' have hid: "opt_visible (st_meta s r') = Some False" by simp
    show "opt_visible (st_meta ?s' r') = Some False"
    proof (cases "r' \<in> set (walk_order ?keys [r])")
      case False
      then show ?thesis using hid by (simp add: cascade_root_other)
    next
      case True
      then have "f \<in> set (walk_order ?keys [r])" using fr by (rule reach_trans)
      with Cons.prems(1) have "opt_visible (st_meta s r) = Some False" by simp
      with True show ?thesis using cascade_root_in by blast
    qed
  qed
  have hyp2: "(\<exists>r' \<in> set rs. f \<in> set (walk_order (map fst (st_values ?s')) [r']))
      \<or> (opt_visible (st_meta ?s' f) = Some False \<and> opt_validate (st_meta ?s' f) = Some False)"
  proof (cases "f \<in> set (walk_order ?keys [r])")
    case True
    with Cons.prems(1) have "opt_visible (st_meta s r) = Some False" by simp
    with True show ?thesis using cascade_root_in by blast
  next
    case False
    then have same: "st_meta ?s' f = st_meta s f" by (rule cascade_root_other)
    from Cons.prems(2) False
    have "(\<exists>r' \<in> set rs. f \<in> set (walk_order ?keys [r']))
        \<or> (opt_visible (st_meta s f) = Some False \<and> opt_validate (st_meta s f) = Some False)"
      by auto
    then show ?thesis using same by simp
  qed
  show ?case
    unfolding step by (rule Cons.IH [OF hyp1 hyp2])
qed

text \<open>
  After the cascade, the meta of a field either has equal, defined \<open>visible\<close> and
  \<open>validate\<close>, or is what it was before the cascade; a root in the second case had no
  defined visibility.
\<close>

lemma cascade_coherent:
  "coherent (st_meta (cascade roots s) f)
   \<or> (st_meta (cascade roots s) f = st_meta s f
      \<and> (f \<in> set roots \<longrightarrow> opt_visible (st_meta s f) = None))"
proof (induction roots arbitrary: s)
  case Nil
  show ?case by (simp add: cascade_def)
next
  case (Cons r rs)
  let ?keys = "map fst (st_values s)"
  let ?s' = "cascade_root r s"
  have step: "cascade (r # rs) s = cascade rs ?s'"
    by (simp add: cascade_def)
  from Cons.IH [of ?s'] show ?case
  proof
    assume "coherent (st_meta (cascade rs ?s') f)"
    then show ?thesis by (simp add: step)
  next
    assume a: "st_meta (cascade rs ?s') f = st_meta ?s' f
        \<and> (f \<in> set rs \<longrightarrow> opt_visible (st_meta ?s' f) = None)"
    show ?thesis
    proof (cases "opt_visible (st_meta s r)")
      case None
      then have "?s' = s" by (rule cascade_root_none)
      with a None show ?thesis by (auto simp: step)
    next
      case (Some v)
      show ?thesis
      proof (cases "f \<in> set (walk_order ?keys [r])")
        case True
        from cascade_root_in [OF True Some] a have "coherent (st_meta (cascade rs ?s') f)"
          by (simp add: coherent_def)
        then show ?thesis by (simp add: step)
      next
        case False
        then have same: "st_meta ?s' f = st_meta s f" by (rule cascade_root_other)
        from False have "f \<noteq> r" using reach_refl by metis
        with a same show ?thesis by (auto simp: step)
      qed
    qed
  qed
qed

section \<open>The steps of a pass\<close>

lemma baseline_values [simp]: "st_values (baseline flds s) = st_values s"
  by (simp add: baseline_def)

lemma baseline_other: "g \<notin> set flds \<Longrightarrow> st_meta (baseline flds s) g = st_meta s g"
  by (simp add: baseline_def fold_setMetaIfChanged_other)


lemma fold_patches_values [simp]:
  "st_values (fold (\<lambda>key. setMetaIfChanged key (pf key)) ks s) = st_values s"
  by (induction ks arbitrary: s) simp_all

lemma fold_patches_other:
  "f \<notin> set ks \<Longrightarrow> st_meta (fold (\<lambda>key. setMetaIfChanged key (pf key)) ks s) f = st_meta s f"
  by (induction ks arbitrary: s) (simp_all add: st_meta_setMetaIfChanged_other)

lemma apply_meta_values [simp]: "st_values (apply_meta m s) = st_values s"
  by (simp add: apply_meta_def)

lemma apply_meta_other: "f \<notin> fst ` set m \<Longrightarrow> st_meta (apply_meta m s) f = st_meta s f"
  by (simp add: apply_meta_def fold_patches_other)



lemma set_fold_set_add: "set (fold (\<lambda>x acc. set_add acc x) xs acc) = set acc \<union> set xs"
  by (induction xs arbitrary: acc) (auto simp: set_add_def)

lemma set_cascadeRoots: "set (cascadeRoots flds m) = set flds \<union> fst ` set m"
  by (simp add: cascadeRoots_def set_fold_set_add)

lemma st_meta_setValue [simp]: "st_meta (setValue key v s) = st_meta s"
  by (simp add: setValue_def Let_def)

lemma st_meta_apply_values [simp]: "st_meta (apply_values dv s) = st_meta s"
proof -
  have "st_meta (fold (\<lambda>key s'.
        let prev = getValue s' key; next = get_prop dv key
        in if \<not> strict_eq prev next then setValue key next s' else s') ks s) = st_meta s" for ks
    by (induction ks arbitrary: s) (simp_all add: Let_def)
  then show ?thesis by (simp add: apply_values_def)
qed




section \<open>One pass: baseline, cascade and the visible/validate invariant\<close>

lemma after_meta_values [simp]: "st_values (after_meta conditions s) = st_values s"
  by (simp add: after_meta_def)

lemma st_meta_run_pass: "st_meta (run_pass conditions s) = st_meta (after_cascade conditions s)"
  by (simp add: run_pass_def)

lemma after_cascade_roots:
  "after_cascade conditions s = cascade (pass_roots conditions s) (after_meta conditions s)"
  by (simp add: after_cascade_def pass_roots_def)

text \<open>The shared core of the cascade claims.\<close>

lemma pass_hides:
  assumes "r0 \<in> set (pass_roots conditions s)"
    and "f \<in> set (walk_order (map fst (st_values s)) [r0])"
    and "\<forall>r \<in> set (pass_roots conditions s).
           f \<in> set (walk_order (map fst (st_values s)) [r])
           \<longrightarrow> opt_visible (st_meta (after_meta conditions s) r) = Some False"
  shows "opt_visible (st_meta (run_pass conditions s) f) = Some False
       \<and> opt_validate (st_meta (run_pass conditions s) f) = Some False"
proof -
  have v: "map fst (st_values (after_meta conditions s)) = map fst (st_values s)"
    by simp
  have "opt_visible (st_meta (cascade (pass_roots conditions s) (after_meta conditions s)) f) = Some False
      \<and> opt_validate (st_meta (cascade (pass_roots conditions s) (after_meta conditions s)) f) = Some False"
  proof (rule cascade_hides)
    show "\<forall>r\<in>set (pass_roots conditions s).
       f \<in> set (walk_order (map fst (st_values (after_meta conditions s))) [r]) \<longrightarrow>
       opt_visible (st_meta (after_meta conditions s) r) = Some False"
      unfolding v by (rule assms(3))
    show "(\<exists>r\<in>set (pass_roots conditions s).
        f \<in> set (walk_order (map fst (st_values (after_meta conditions s))) [r])) \<or>
      opt_visible (st_meta (after_meta conditions s) f) = Some False \<and>
      opt_validate (st_meta (after_meta conditions s) f) = Some False"
      unfolding v using assms(1,2) by blast
  qed
  then show ?thesis
    by (simp only: st_meta_run_pass after_cascade_roots)
qed





text \<open>
  What the cascade does for a hidden root. For a cascade root that is hidden once the
  baseline and the meta patch are written, one pass forces every field that the subtree
  walk reaches from it through the index of children (the root, and each registered path
  whose parent chain down from the root is registered at every step) to
  \<open>visible = false\<close> and \<open>validate = false\<close>, provided every other cascade root whose
  walk reaches the field is hidden at that point too.
\<close>

lemma hidden_root_hides_walked_fields:
  assumes "rt \<in> set (pass_roots conditions s)"
    and "opt_visible (st_meta (after_meta conditions s) rt) = Some False"
    and "f \<in> set (walk_order (map fst (st_values s)) [rt])"
    and "\<forall>r \<in> set (pass_roots conditions s).
           r \<noteq> rt \<and> f \<in> set (walk_order (map fst (st_values s)) [r])
           \<longrightarrow> opt_visible (st_meta (after_meta conditions s) r) = Some False"
  shows "opt_visible (st_meta (run_pass conditions s) f) = Some False
       \<and> opt_validate (st_meta (run_pass conditions s) f) = Some False"
proof -
  have all: "\<forall>r \<in> set (pass_roots conditions s).
         f \<in> set (walk_order (map fst (st_values s)) [r])
         \<longrightarrow> opt_visible (st_meta (after_meta conditions s) r) = Some False"
  proof (intro ballI impI)
    fix r
    assume r: "r \<in> set (pass_roots conditions s)"
      and fr: "f \<in> set (walk_order (map fst (st_values s)) [r])"
    show "opt_visible (st_meta (after_meta conditions s) r) = Some False"
    proof (cases "r = rt")
      case True
      with assms(2) show ?thesis by simp
    next
      case False
      with assms(4) r fr show ?thesis by simp
    qed
  qed
  show ?thesis
    by (rule pass_hides [OF assms(1) assms(3) all])
qed

text \<open>
  With \<open>a\<close>, \<open>a.b\<close> and \<open>a.b.c\<close> all registered and \<open>a\<close> hidden, the walk from \<open>a\<close>
  reaches both descendants, and one pass hides them.
\<close>

lemma hidden_root_hides_registered_chain:
  "pass_roots rules_hide_a store_abc = [''a'']
   \<and> walk_order (map fst (st_values store_abc)) [''a''] = [''a'', ''a.b'', ''a.b.c'']
   \<and> opt_visible (st_meta (run_pass rules_hide_a store_abc) ''a.b'') = Some False
   \<and> opt_validate (st_meta (run_pass rules_hide_a store_abc) ''a.b'') = Some False
   \<and> opt_visible (st_meta (run_pass rules_hide_a store_abc) ''a.b.c'') = Some False
   \<and> opt_validate (st_meta (run_pass rules_hide_a store_abc) ''a.b.c'') = Some False"
  by (intro conjI; code_simp)

text \<open>
  Claim C4, at the input where it fails. The fields \<open>user\<close> and \<open>user.address.street\<close>
  are registered (the flat shape the documentation shows) and \<open>user.address\<close> is not; one
  rule with a true predicate hides \<open>user\<close>. The field \<open>user\<close> is the one cascade root and
  ends the pass hidden. The field \<open>user.address.street\<close> is registered and \<open>isChildOf\<close>
  counts it under \<open>user\<close>, but the index of children has no entry leading to it from
  \<open>user\<close>, so the walk from \<open>user\<close> visits \<open>user\<close> alone: after the pass the meta of
  \<open>user.address.street\<close> still says \<open>visible = true\<close> and \<open>validate = true\<close>. On the same
  meta, \<open>isEffectivelyValidatable\<close>, which goes by the dot prefixes of the path, says the
  field is not to be validated.
\<close>

theorem hidden_parent_leaves_descendant_visible:
  "pass_roots rules_hide_user store_user = [''user'']
   \<and> opt_visible (st_meta (run_pass rules_hide_user store_user) ''user'') = Some False
   \<and> ''user.address.street'' \<in> fst ` set (st_values store_user)
   \<and> isChildOf ''user'' ''user.address.street''
   \<and> walk_order (map fst (st_values store_user)) [''user''] = [''user'']
   \<and> opt_visible (st_meta (run_pass rules_hide_user store_user) ''user.address.street'')
       = Some True
   \<and> opt_validate (st_meta (run_pass rules_hide_user store_user) ''user.address.street'')
       = Some True
   \<and> \<not> isEffectivelyValidatable ''user.address.street''
         (st_meta (run_pass rules_hide_user store_user))"
  by (intro conjI; code_simp)

text \<open>
  A hidden root under a visible one: with \<open>p\<close>, \<open>p.a\<close>, \<open>p.a.b\<close> registered, \<open>p.a\<close>
  hidden and \<open>p\<close> shown, the field \<open>p.a.b\<close> ends the pass visible, since the cascade
  from the visible root \<open>p\<close> shows the whole subtree of \<open>p\<close>.
\<close>

lemma visible_root_shows_hidden_subtree:
  "''p.a'' \<in> set (pass_roots rules_hide_pa_show_p store_p)
   \<and> opt_visible (st_meta (after_meta rules_hide_pa_show_p store_p) ''p.a'') = Some False
   \<and> ''p.a.b'' \<in> set (walk_order (map fst (st_values store_p)) [''p.a''])
   \<and> isChildOf ''p.a'' ''p.a.b''
   \<and> opt_visible (st_meta (run_pass rules_hide_pa_show_p store_p) ''p.a.b'') = Some True"
  by (intro conjI; code_simp)

lemma pass_meta_cases:
  "coherent (st_meta (run_pass conditions s) f)
   \<or> (st_meta (run_pass conditions s) f = st_meta (after_meta conditions s) f
      \<and> (f \<in> set (pass_roots conditions s)
           \<longrightarrow> opt_visible (st_meta (after_meta conditions s) f) = None))"
  using cascade_coherent [of "pass_roots conditions s" "after_meta conditions s" f]
  by (simp add: st_meta_run_pass after_cascade_roots)

lemma after_meta_other:
  assumes "f \<notin> set (pass_roots conditions s)"
  shows "st_meta (after_meta conditions s) f = st_meta s f"
proof -
  from assms have "f \<notin> set (showControlledFields conditions)"
    and "f \<notin> fst ` set (meta (evaluateConditions (st_values s) conditions))"
    by (simp_all add: pass_roots_def set_cascadeRoots)
  then show ?thesis
    by (simp add: after_meta_def apply_meta_other baseline_other)
qed

text \<open>
  Claim C7. After a pass, a cascade root (a show-controlled field, or a field with an
  entry in the engine's meta patch, such as the target of a \<open>hide\<close> effect) whose meta
  says \<open>visible = false\<close> has \<open>validate = false\<close>. And any field at all whose meta says
  \<open>visible = false\<close> after the pass either has \<open>validate = false\<close> too, or has exactly
  the meta it had before the pass: whatever the pass wrote (baseline, meta patch,
  cascade), it leaves no field it touched invisible and validatable.
\<close>

theorem invisible_is_not_validatable:
  "(f \<in> set (pass_roots conditions s)
      \<and> opt_visible (st_meta (run_pass conditions s) f) = Some False
      \<longrightarrow> opt_validate (st_meta (run_pass conditions s) f) = Some False)
   \<and> (opt_visible (st_meta (run_pass conditions s) f) = Some False
      \<longrightarrow> opt_validate (st_meta (run_pass conditions s) f) = Some False
          \<or> st_meta (run_pass conditions s) f = st_meta s f)"
proof (intro conjI impI)
  assume "f \<in> set (pass_roots conditions s)
      \<and> opt_visible (st_meta (run_pass conditions s) f) = Some False"
  with pass_meta_cases [of conditions s f]
  show "opt_validate (st_meta (run_pass conditions s) f) = Some False"
    by (auto simp: coherent_def)
next
  assume v: "opt_visible (st_meta (run_pass conditions s) f) = Some False"
  from pass_meta_cases [of conditions s f]
  show "opt_validate (st_meta (run_pass conditions s) f) = Some False
      \<or> st_meta (run_pass conditions s) f = st_meta s f"
  proof
    assume "coherent (st_meta (run_pass conditions s) f)"
    with v show ?thesis by (simp add: coherent_def)
  next
    assume a: "st_meta (run_pass conditions s) f = st_meta (after_meta conditions s) f
        \<and> (f \<in> set (pass_roots conditions s)
             \<longrightarrow> opt_visible (st_meta (after_meta conditions s) f) = None)"
    show ?thesis
    proof (cases "f \<in> set (pass_roots conditions s)")
      case True
      with a v show ?thesis by simp
    next
      case False
      with a show ?thesis by (simp add: after_meta_other)
    qed
  qed
qed

theorem invisible_is_not_validatable_witness:
  "''a'' \<in> set (pass_roots rules_hide_a store_abc)
   \<and> opt_visible (st_meta (run_pass rules_hide_a store_abc) ''a'') = Some False
   \<and> opt_validate (st_meta (run_pass rules_hide_a store_abc) ''a'') = Some False
   \<and> opt_visible (st_meta (run_pass rules_hide_a store_abc) ''a.b'') = Some False
   \<and> st_meta (run_pass rules_hide_a store_abc) ''a.b'' \<noteq> st_meta store_abc ''a.b''
   \<and> opt_validate (st_meta (run_pass rules_hide_a store_abc) ''a.b'') = Some False"
proof -
  have r: "''a'' \<in> set (pass_roots rules_hide_a store_abc)"
    by code_simp
  have va: "opt_visible (st_meta (run_pass rules_hide_a store_abc) ''a'') = Some False"
    by code_simp
  have v: "opt_visible (st_meta (run_pass rules_hide_a store_abc) ''a.b'') = Some False"
    by code_simp
  have n: "st_meta (run_pass rules_hide_a store_abc) ''a.b'' \<noteq> st_meta store_abc ''a.b''"
    by code_simp
  show ?thesis
    using invisible_is_not_validatable [of "''a''" rules_hide_a store_abc]
      invisible_is_not_validatable [of "''a.b''" rules_hide_a store_abc] r va v n
    by simp
qed

section \<open>Dependency tracing\<close>

lemma set_set_add [simp]: "set (set_add xs x) = insert x (set xs)"
  by (auto simp: set_add_def)

lemma distinct_set_add: "distinct xs \<Longrightarrow> distinct (set_add xs x)"
  by (simp add: set_add_def)

lemma call_on_proxy_reads:
  "set (fst (call_on_proxy fn target reads))
     = set reads \<union> {k. StrKey k \<in> set (reads_performed fn target)}"
proof (induction fn arbitrary: reads)
  case (Get pk k)
  show ?case
    by (cases pk) (auto simp: Get.IH)
qed simp_all

lemma call_on_proxy_distinct:
  "distinct reads \<Longrightarrow> distinct (fst (call_on_proxy fn target reads))"
proof (induction fn arbitrary: reads)
  case (Get pk k)
  then show ?case
    by (cases pk) (simp_all add: distinct_set_add)
qed simp_all

text \<open>
  Claim C9. For every predicate and value map, \<open>traceReads\<close> completes normally, whether
  the predicate returns or throws, and what it returns holds exactly the string keys of
  the properties the predicate read during its one call, each once; symbol keys are
  not recorded. For a predicate that reads \<open>x\<close> and \<open>y\<close> and then throws, the call on
  the proxy ends in the exception and \<open>traceReads\<close> returns the two keys.
\<close>

theorem traceReads_returns_keys_read:
  "(\<exists>reads. traceReads fn values0 = Normal reads
      \<and> set reads = {k. StrKey k \<in> set (reads_performed fn values0)}
      \<and> distinct reads)
   \<and> snd (call_on_proxy throwing_predicate [(''x'', VBool True)] []) = Thrown
   \<and> traceReads throwing_predicate [(''x'', VBool True)] = Normal [''x'', ''y'']"
proof (intro conjI)
  obtain reads out where c: "call_on_proxy fn values0 [] = (reads, out)"
    by (cases "call_on_proxy fn values0 []")
  then have "traceReads fn values0 = Normal reads"
    by (cases out) (simp_all add: traceReads_def)
  moreover have "set reads = {k. StrKey k \<in> set (reads_performed fn values0)}"
    using call_on_proxy_reads [of fn values0 "[]"] c by simp
  moreover have "distinct reads"
    using call_on_proxy_distinct [of "[]" fn values0] c by simp
  ultimately show "\<exists>reads. traceReads fn values0 = Normal reads
      \<and> set reads = {k. StrKey k \<in> set (reads_performed fn values0)}
      \<and> distinct reads" by blast
  show "snd (call_on_proxy throwing_predicate [(''x'', VBool True)] []) = Thrown"
    by (simp add: throwing_predicate_def reflect_get_def get_prop_def)
  show "traceReads throwing_predicate [(''x'', VBool True)] = Normal [''x'', ''y'']"
    by (simp add: traceReads_def throwing_predicate_def reflect_get_def get_prop_def set_add_def)
qed

section \<open>The condition DSL: else branches and builders\<close>

lemma ee_call_same: "fst (ee_call c (b, h)) = b"
  by (cases c) (simp_all add: ee_show_def ee_hide_def ee_enable_def ee_disable_def ee_set_def
      ee_setValue_def ee_clear_def ee_with_effect_def)

lemma fold_ee_call_same: "fst (fold ee_call cs (b, h)) = b"
proof (induction cs arbitrary: h)
  case Nil
  show ?case by simp
next
  case (Cons c cs)
  obtain h' where "ee_call c (b, h) = (b, h')"
    using ee_call_same [of c b h] by (cases "ee_call c (b, h)") simp
  then show ?case using Cons.IH by simp
qed

text \<open>
  Claim C2. For every builder, \<open>else()\<close> followed by any chain of effect-appending calls
  and \<open>toRules()\<close> gives exactly two rules. They have the same priority (the
  builder's), the first has the builder's predicate, and on every value map the second
  predicate is true iff the first is false. So on no value map are both rules applied,
  and the field sets they trigger are disjoint.
\<close>

theorem else_yields_two_negated_rules:
  "case fold ee_call calls (eb_else b h) of (e, h') \<Rightarrow>
     (\<exists>r1 r2. ee_toRules e = [r1, r2]
        \<and> ur_priority r1 = ur_priority r2
        \<and> ur_priority r1 = eb_priority b
        \<and> ur_when r1 = eb_whenFn b
        \<and> (\<forall>values0. ur_when r2 values0 = (\<not> ur_when r1 values0))
        \<and> (\<forall>values0. \<not> (ur_when r1 values0 \<and> ur_when r2 values0))
        \<and> (\<forall>values0. triggered_fields h' r1 values0 \<inter> triggered_fields h' r2 values0 = {}))"
proof -
  obtain e0 h0 where e0: "eb_else b h = (e0, h0)"
    by (cases "eb_else b h")
  obtain e h' where f: "fold ee_call calls (e0, h0) = (e, h')"
    by (cases "fold ee_call calls (e0, h0)")
  have "e = e0" using fold_ee_call_same [of calls e0 h0] f by simp
  moreover have "ee_whenFn e0 = eb_whenFn b" "ee_priority e0 = eb_priority b"
    using e0 by (auto simp: eb_else_def alloc_def)
  ultimately show ?thesis
    by (simp add: e0 f ee_toRules_def invertWhen_def triggered_fields_def)
qed

text \<open>
  Claim C6, at the input where it fails. Take the builder that \<open>else()\<close> returns for
  \<open>when(P).show("A")\<close>; its \<open>toRules()\<close> gives rules with the effects \<open>[show A]\<close> and
  \<open>[]\<close>. Calling \<open>show("B")\<close> on it returns the same builder and pushes onto its
  else-effects array, so \<open>toRules()\<close> on the original builder now gives \<open>[show A]\<close> and
  \<open>[show B]\<close>: the previously returned builder was mutated.
\<close>

theorem else_builder_mutated_by_show:
  "map (rule_effects \<circ> rule_view (snd else_builder_example))
       (ee_toRules (fst else_builder_example)) = [[Show ''A''], []]
   \<and> fst (ee_show (fst else_builder_example) (Path ''B'') (snd else_builder_example))
       = fst else_builder_example
   \<and> map (rule_effects \<circ> rule_view
            (snd (ee_show (fst else_builder_example) (Path ''B'') (snd else_builder_example))))
       (ee_toRules (fst else_builder_example)) = [[Show ''A''], [Show ''B'']]"
  by (simp add: else_builder_example_def when_typed_def eb_show_def eb_with_effect_def
      eb_else_def alloc_def empty_heap_def ee_toRules_def rule_view_def ee_show_def
      ee_with_effect_def push_def resolveField_def)

text \<open>
  The builders of class \<open>EffectBuilder\<close> do keep the promise: an effect-appending call
  on a builder whose array is allocated leaves the rules of that builder as they were.
\<close>

lemma eb_call_persistent:
  assumes "eb_effects b < next_ref h"
  shows "map (rule_view (snd (eb_call c (b, h)))) (eb_toRules b) = map (rule_view h) (eb_toRules b)
       \<and> eb_effects (fst (eb_call c (b, h))) < next_ref (snd (eb_call c (b, h)))"
  using assms
  by (cases c)
     (simp_all add: eb_show_def eb_hide_def eb_enable_def eb_disable_def eb_set_def
        eb_setValue_def eb_clear_def eb_with_effect_def alloc_def eb_toRules_def rule_view_def)

section \<open>Asynchronous validation: stale results\<close>

lemma lv_notify [simp]: "st_lastValidated (notify e s) = st_lastValidated s"
  by (simp add: notify_def)

lemma lv_clear_error_if_set [simp]:
  "st_lastValidated (clear_error_if_set k s) = st_lastValidated s"
  by (simp add: clear_error_if_set_def)

lemma run_rules_dispatch:
  "run_rules rules key v s = (r, Some c, s1) \<Longrightarrow> c = \<lparr>c_key = key, c_valueAtStart = v\<rparr>"
  by (induction rules) (auto split: vresult.splits if_splits)

lemma run_rules_lv [simp]:
  "st_lastValidated (snd (snd (run_rules rules key v s))) = st_lastValidated s"
  by (induction rules) (auto split: vresult.splits)

lemma validateField_dispatch:
  assumes "validateField key s = (r, Some c, s1)"
  shows "c = \<lparr>c_key = key, c_valueAtStart = get_prop (st_values s) key\<rparr>
       \<and> \<not> strict_eq (lv_get s key) (get_prop (st_values s) key)"
  using assms
  by (auto simp: validateField_def Let_def simp del: run_rules.simps
      split: if_splits option.splits list.splits dest: run_rules_dispatch)

lemma dispatched_value_defined:
  assumes "lv_consistent s" and "validateField key s = (r, Some c, s1)"
  shows "c_key c = key \<and> c_valueAtStart c \<noteq> VUndefined"
proof -
  from validateField_dispatch [OF assms(2)]
  have c: "c = \<lparr>c_key = key, c_valueAtStart = get_prop (st_values s) key\<rparr>"
    and ne: "\<not> strict_eq (lv_get s key) (get_prop (st_values s) key)"
    by simp_all
  from assms(1) have "lv_get s key = VUndefined \<or> lv_get s key = get_prop (st_values s) key"
    by (simp add: lv_consistent_def)
  with ne have "get_prop (st_values s) key \<noteq> VUndefined"
    by (auto simp: strict_eq_def)
  with c show ?thesis by simp
qed

lemma lv_setValue_same [simp]: "st_lastValidated (setValue key v s) key = None"
  by (simp add: setValue_def Let_def)

lemma validateField_lv_other:
  "k \<noteq> key \<Longrightarrow> st_lastValidated (snd (snd (validateField k s))) key = st_lastValidated s key"
  by (simp add: validateField_def Let_def del: run_rules.simps split: option.splits list.splits)

lemma store_steps_append:
  "store_steps (xs @ ys) s = store_steps ys (store_steps xs s)"
  by (simp add: store_steps_def)

text \<open>The record of last-validated values stays consistent under the store's calls.\<close>

lemma lv_consistent_createFormStore: "lv_consistent createFormStore"
  by (simp add: lv_consistent_def lv_get_def createFormStore_def)

lemma get_prop_update: "get_prop (AList.update k v vs) k' = (if k' = k then v else get_prop vs k')"
  by (simp add: get_prop_def update_conv')

lemma lv_consistent_setValue: "lv_consistent s \<Longrightarrow> lv_consistent (setValue key v s)"
  by (auto simp: lv_consistent_def lv_get_def setValue_def Let_def notify_def get_prop_update
      split: option.splits)


lemma lv_consistent_clear_error [simp]:
  "lv_consistent (clear_error_if_set k s) = lv_consistent s"
  by (simp add: lv_consistent_def lv_get_def)

lemma lv_consistent_notify [simp]: "lv_consistent (notify e s) = lv_consistent s"
  by (simp add: lv_consistent_def lv_get_def)

lemma lv_consistentI:
  "(\<And>k. lv_get s k = VUndefined \<or> lv_get s k = get_prop (st_values s) k) \<Longrightarrow> lv_consistent s"
  by (simp add: lv_consistent_def)

lemma lv_consistentD:
  "lv_consistent s \<Longrightarrow> lv_get s k = VUndefined \<or> lv_get s k = get_prop (st_values s) k"
  by (simp add: lv_consistent_def)

lemma lv_consistent_delete:
  assumes "lv_consistent s" and "st_values s' = st_values s"
    and "st_lastValidated s' = st_lastValidated s \<or> st_lastValidated s' = (st_lastValidated s)(k := None)"
  shows "lv_consistent s'"
proof (rule lv_consistentI)
  fix j
  from lv_consistentD [OF assms(1), of j] assms(2,3)
  show "lv_get s' j = VUndefined \<or> lv_get s' j = get_prop (st_values s') j"
    by (cases "j = k") (auto simp: lv_get_def)
qed

lemma lv_consistent_setMeta: "lv_consistent s \<Longrightarrow> lv_consistent (setMeta name m s)"
  by (erule lv_consistent_delete [where k = name]) (auto simp: setMeta_def Let_def)

lemma lv_consistent_setValidators: "lv_consistent s \<Longrightarrow> lv_consistent (setValidators name vs s)"
  by (erule lv_consistent_delete [where k = name]) (auto simp: setValidators_def)

lemma lv_consistent_async_resolved: "lv_consistent s \<Longrightarrow> lv_consistent (async_resolved c msg s)"
  by (erule lv_consistent_delete [where k = "c_key c"])
     (auto simp: async_resolved_def Let_def notify_def)

lemma st_values_run_rules [simp]: "st_values (snd (snd (run_rules rules key v s))) = st_values s"
  by (induction rules) (auto split: vresult.splits)

lemma lv_consistent_validateField:
  assumes "lv_consistent s"
  shows "lv_consistent (snd (snd (validateField key s)))"
proof -
  let ?s' = "snd (snd (validateField key s))"
  have v: "st_values ?s' = st_values s"
    by (simp add: validateField_def Let_def del: run_rules.simps split: option.splits list.splits)
  have "st_lastValidated ?s' = st_lastValidated s
      \<or> st_lastValidated ?s' = (st_lastValidated s)(key := None)
      \<or> st_lastValidated ?s' = (st_lastValidated s)(key \<mapsto> get_prop (st_values s) key)"
    by (simp add: validateField_def Let_def del: run_rules.simps split: option.splits list.splits)
  then have lv: "st_lastValidated ?s' = st_lastValidated s
      \<or> st_lastValidated ?s' = (st_lastValidated s)(key := None)
      \<or> st_lastValidated ?s' = (st_lastValidated s)(key \<mapsto> get_prop (st_values s) key)" .
  show ?thesis
  proof (rule lv_consistentI)
    fix j
    from lv_consistentD [OF assms, of j] v lv
    show "lv_get ?s' j = VUndefined \<or> lv_get ?s' j = get_prop (st_values ?s') j"
      by (cases "j = key") (auto simp: lv_get_def)
  qed
qed

lemma lv_consistent_store_step: "lv_consistent s \<Longrightarrow> lv_consistent (store_step call s)"
  by (cases call)
     (simp_all add: lv_consistent_setValue lv_consistent_setMeta lv_consistent_setValidators
        lv_consistent_validateField lv_consistent_async_resolved clearError_def)

lemma lv_consistent_register:
  assumes "lv_consistent s"
  shows "lv_consistent (register key v s)"
proof (cases "key \<in> fst ` set (st_values s)")
  case True
  with assms show ?thesis by (simp add: register_def)
next
  case False
  then have absent: "get_prop (st_values s) key = VUndefined"
    by (simp add: get_prop_def map_of_eq_None_iff [THEN iffD2])
  have other: "j \<noteq> key \<Longrightarrow> get_prop (st_values s @ [(key, v)]) j = get_prop (st_values s) j" for j
    by (simp add: get_prop_def map_add_def split: option.splits)
  let ?s' = "register key v s"
  have vals: "st_values ?s' = st_values s @ [(key, v)]"
    and lv: "st_lastValidated ?s' = st_lastValidated s"
    using False by (simp_all add: register_def)
  show ?thesis
  proof (rule lv_consistentI)
    fix j
    from lv_consistentD [OF assms, of j] absent other [of j]
    show "lv_get ?s' j = VUndefined \<or> lv_get ?s' j = get_prop (st_values ?s') j"
      by (cases "j = key") (auto simp: lv_get_def vals lv)
  qed
qed

lemma lv_consistent_store_steps: "lv_consistent s \<Longrightarrow> lv_consistent (store_steps calls s)"
  unfolding store_steps_def
  by (induction calls arbitrary: s) (simp_all add: lv_consistent_store_step)

text \<open>
  So every store that is reached from the empty store by registering fields and then
  by calls of the store is consistent.
\<close>

lemma lv_consistent_reachable:
  "lv_consistent (store_steps calls (fold (\<lambda>(k, v). register k v) regs createFormStore))"
proof -
  have "lv_consistent s \<Longrightarrow> lv_consistent (fold (\<lambda>(k, v). register k v) regs s)" for s
    by (induction regs arbitrary: s) (auto simp: lv_consistent_register)
  then show ?thesis
    by (simp add: lv_consistent_store_steps lv_consistent_createFormStore)
qed

lemma validateField_lv_cases:
  "st_lastValidated (snd (snd (validateField key s))) key = st_lastValidated s key
   \<or> st_lastValidated (snd (snd (validateField key s))) key = None
   \<or> (key \<notin> st_pending s
       \<and> st_lastValidated (snd (snd (validateField key s))) key = Some (get_prop (st_values s) key))"
  by (simp add: validateField_def Let_def del: run_rules.simps split: option.splits list.splits)

text \<open>
  A call of the store leaves the last-validated record of \<open>key\<close> not identical to \<open>v0\<close>,
  unless it is a \<open>validateField(key)\<close> on a field that is not pending and whose value is
  identical to \<open>v0\<close>.
\<close>

lemma not_recorded_step:
  assumes "\<not> strict_eq (lv_get s key) v0" and "v0 \<noteq> VUndefined"
    and "case call of
           StoreValidateField k \<Rightarrow>
             k \<noteq> key \<or> key \<in> st_pending s \<or> \<not> strict_eq (get_prop (st_values s) key) v0
         | _ \<Rightarrow> True"
  shows "\<not> strict_eq (lv_get (store_step call s) key) v0"
proof -
  have del: "st_lastValidated s' key = st_lastValidated s key \<or> st_lastValidated s' key = None
      \<Longrightarrow> \<not> strict_eq (lv_get s' key) v0" for s'
    using assms(1,2) by (auto simp: lv_get_def strict_eq_def)
  show ?thesis
  proof (cases call)
    case (StoreSetValue k v)
    then show ?thesis by (intro del) (simp add: setValue_def Let_def)
  next
    case (StoreSetMeta n m)
    then show ?thesis by (intro del) (auto simp: setMeta_def Let_def)
  next
    case (StoreClearError k)
    then show ?thesis by (intro del) (simp add: clearError_def)
  next
    case (StoreSetValidators n vs)
    then show ?thesis by (intro del) (simp add: setValidators_def)
  next
    case (StoreResolved c msg)
    then show ?thesis by (intro del) (simp add: async_resolved_def Let_def)
  next
    case (StoreValidateField k)
    show ?thesis
    proof (cases "k = key")
      case False
      with StoreValidateField show ?thesis
        by (intro del) (simp add: validateField_lv_other)
    next
      case True
      with StoreValidateField assms(3)
      have h: "key \<in> st_pending s \<or> \<not> strict_eq (get_prop (st_values s) key) v0" by simp
      from validateField_lv_cases [of key s] h assms(1,2)
      show ?thesis
        unfolding StoreValidateField True
        by (auto simp: lv_get_def strict_eq_def)
    qed
  qed
qed

lemma not_recorded_steps:
  "\<not> strict_eq (lv_get s key) v0 \<Longrightarrow> v0 \<noteq> VUndefined \<Longrightarrow> revalidation_free key v0 calls s
    \<Longrightarrow> \<not> strict_eq (lv_get (store_steps calls s) key) v0"
  unfolding store_steps_def
proof (induction calls arbitrary: s)
  case Nil
  then show ?case by simp
next
  case (Cons call calls)
  from Cons.prems have "\<not> strict_eq (lv_get (store_step call s) key) v0"
    by (intro not_recorded_step) simp_all
  with Cons show ?case by simp
qed

lemma async_resolved_not_recorded:
  assumes "\<not> strict_eq (lv_get s (c_key c)) (c_valueAtStart c)"
  shows "async_resolved c msg s = s\<lparr>st_pending := st_pending s - {c_key c}\<rparr>"
  using assms by (simp add: async_resolved_def Let_def)

text \<open>
  Claim C10, as the code has it. A validation of a field is started (the validator
  returned a promise) in a store whose last-validated records are consistent; any calls
  on the store follow, further \<open>validateField\<close> calls and resolutions of promises among
  them; then the promise resolves. The resolution is a no-op but for the pending flag
  (the error map and the notification log are what they were) in each of two cases:
  the field's value at the resolution is not identical to the value captured at the
  start; or the calls hold a \<open>setValue\<close> of the field after which the field is never
  validated afresh at a value identical to the captured one (at each later
  \<open>validateField\<close> of it, the field is still pending or its value is not identical to
  the captured one). The check compares the captured value with the field's
  last-validated record, which \<open>setValue\<close> deletes and only such a fresh validation
  sets to the captured value again.
\<close>

theorem stale_resolution_is_noop:
  assumes "lv_consistent s"
    and "validateField key s = (r, Some c, s1)"
    and "s2 = store_steps calls s1"
    and "\<not> strict_eq (get_prop (st_values s2) key) (c_valueAtStart c)
         \<or> calls = earlier @ StoreSetValue key v # later
           \<and> revalidation_free key (c_valueAtStart c) later
               (store_steps (earlier @ [StoreSetValue key v]) s1)"
  shows "async_resolved c msg s2 = s2\<lparr>st_pending := st_pending s2 - {key}\<rparr>
       \<and> st_errors (async_resolved c msg s2) = st_errors s2
       \<and> st_log (async_resolved c msg s2) = st_log s2"
proof -
  from dispatched_value_defined [OF assms(1,2)]
  have k: "c_key c = key" and d: "c_valueAtStart c \<noteq> VUndefined" by simp_all
  have "lv_consistent s1"
    using lv_consistent_validateField [OF assms(1), of key] assms(2) by simp
  then have c2: "lv_consistent s2"
    by (simp add: assms(3) lv_consistent_store_steps)
  have "\<not> strict_eq (lv_get s2 key) (c_valueAtStart c)"
    using assms(4)
  proof
    assume ne: "\<not> strict_eq (get_prop (st_values s2) key) (c_valueAtStart c)"
    from lv_consistentD [OF c2, of key] ne d show ?thesis
      by (auto simp: strict_eq_def)
  next
    assume h: "calls = earlier @ StoreSetValue key v # later
           \<and> revalidation_free key (c_valueAtStart c) later
               (store_steps (earlier @ [StoreSetValue key v]) s1)"
    let ?t = "store_steps (earlier @ [StoreSetValue key v]) s1"
    have "st_lastValidated ?t key = None"
      by (simp add: store_steps_append) (simp add: store_steps_def)
    then have "\<not> strict_eq (lv_get ?t key) (c_valueAtStart c)"
      using d by (auto simp: lv_get_def strict_eq_def)
    from not_recorded_steps [OF this d conjunct2 [OF h]]
    have "\<not> strict_eq (lv_get (store_steps later ?t) key) (c_valueAtStart c)" .
    moreover have "s2 = store_steps later ?t"
      using h by (simp add: assms(3) store_steps_def)
    ultimately show ?thesis by simp
  qed
  with k have "async_resolved c msg s2 = s2\<lparr>st_pending := st_pending s2 - {key}\<rparr>"
    using async_resolved_not_recorded [of s2 c msg] by simp
  then show ?thesis by simp
qed

lemma lv_consistent_store_k: "lv_consistent store_k"
  by (simp add: lv_consistent_def lv_get_def store_k_def setValidators_def register_def
      createFormStore_def notify_def)

lemma first_dispatch_continuation: "fst (snd first_dispatch) = Some first_continuation"
  by code_simp

text \<open>
  Two histories where the theorem applies. In the first the value is set to \<open>w\<close> and the
  field is validated again while the first validation is pending: at the resolution the
  value is \<open>w\<close>, not the captured \<open>v\<close>. In the second the value is set to \<open>w\<close> and back to
  \<open>v\<close> before that call: the value at the resolution is identical to the captured one,
  but the later \<open>validateField\<close> found the field pending. In both, the message the first
  promise resolves with is dropped.
\<close>

theorem stale_resolution_is_noop_witness:
  "lv_consistent store_k
   \<and> fst (snd (validateField ''k'' store_k)) = Some first_continuation
   \<and> get_prop (st_values store_k_blurred) ''k'' = VStr ''w''
   \<and> st_errors (async_resolved first_continuation (Some ''E'') store_k_blurred)
       = st_errors store_k_blurred
   \<and> st_log (async_resolved first_continuation (Some ''E'') store_k_blurred)
       = st_log store_k_blurred
   \<and> get_prop (st_values store_k_restored) ''k'' = VStr ''v''
   \<and> revalidation_free ''k'' (VStr ''v'') [StoreValidateField ''k'']
        (store_steps ([StoreSetValue ''k'' (VStr ''w'')] @ [StoreSetValue ''k'' (VStr ''v'')])
           (snd (snd first_dispatch)))
   \<and> st_errors (async_resolved first_continuation (Some ''E'') store_k_restored)
       = st_errors store_k_restored
   \<and> st_log (async_resolved first_continuation (Some ''E'') store_k_restored)
       = st_log store_k_restored"
proof -
  have d: "validateField ''k'' store_k
      = (fst first_dispatch, Some first_continuation, snd (snd first_dispatch))"
    using first_dispatch_continuation by (simp add: first_dispatch_def prod_eq_iff)
  have cv: "c_valueAtStart first_continuation = VStr ''v''"
    by (simp add: first_continuation_def)
  have w: "get_prop (st_values store_k_blurred) ''k'' = VStr ''w''"
    by code_simp
  have v: "get_prop (st_values store_k_restored) ''k'' = VStr ''v''"
    by code_simp
  have free: "revalidation_free ''k'' (VStr ''v'') [StoreValidateField ''k'']
        (store_steps ([StoreSetValue ''k'' (VStr ''w'')] @ [StoreSetValue ''k'' (VStr ''v'')])
           (snd (snd first_dispatch)))"
    by code_simp
  have h1: "\<not> strict_eq (get_prop (st_values store_k_blurred) ''k'')
        (c_valueAtStart first_continuation)
      \<or> [StoreSetValue ''k'' (VStr ''w''), StoreValidateField ''k'']
          = [] @ StoreSetValue ''k'' (VStr ''w'') # [StoreValidateField ''k'']
        \<and> revalidation_free ''k'' (c_valueAtStart first_continuation) [StoreValidateField ''k'']
            (store_steps ([] @ [StoreSetValue ''k'' (VStr ''w'')]) (snd (snd first_dispatch)))"
    by (simp add: w cv strict_eq_def)
  have h2: "\<not> strict_eq (get_prop (st_values store_k_restored) ''k'')
        (c_valueAtStart first_continuation)
      \<or> [StoreSetValue ''k'' (VStr ''w''), StoreSetValue ''k'' (VStr ''v''),
          StoreValidateField ''k'']
          = [StoreSetValue ''k'' (VStr ''w'')] @ StoreSetValue ''k'' (VStr ''v'')
              # [StoreValidateField ''k'']
        \<and> revalidation_free ''k'' (c_valueAtStart first_continuation) [StoreValidateField ''k'']
            (store_steps ([StoreSetValue ''k'' (VStr ''w'')] @ [StoreSetValue ''k'' (VStr ''v'')])
               (snd (snd first_dispatch)))"
    using free by (simp add: cv)
  show ?thesis
    using stale_resolution_is_noop [OF lv_consistent_store_k d store_k_blurred_def h1, of "Some ''E''"]
      stale_resolution_is_noop [OF lv_consistent_store_k d store_k_restored_def h2, of "Some ''E''"]
      lv_consistent_store_k first_dispatch_continuation w v free
    by (simp add: first_dispatch_def)
qed

text \<open>
  Claim C10 as stated fails: the value of \<open>k\<close> is changed by \<open>setValue\<close> (to \<open>w\<close> and
  back to \<open>v\<close>) while the first validation is in flight; the field is hidden and shown
  again, which clears its pending flag, and validated again at \<open>v\<close>. When the first
  promise then resolves with a message, the last-validated record is identical to the
  captured value, so the message is written to the error map and a notification is sent.
\<close>

theorem stale_resolution_counterexample:
  "fst (snd (validateField ''k'' store_k)) = Some first_continuation
   \<and> st_errors store_k_revalidated ''k'' = Some None
   \<and> st_errors (async_resolved first_continuation (Some ''E'') store_k_revalidated) ''k''
       = Some (Some ''E'')
   \<and> st_log (async_resolved first_continuation (Some ''E'') store_k_revalidated)
       = st_log store_k_revalidated @ [NotifyError ''k'']"
  by (intro conjI; code_simp)

end
